theory Spec2Isabelle
  imports Main "HOL-Library.Word" "HOL-Library.AList"
begin

section \<open>COLMAP binary loader: byte buffers and DataView reads\<close>

text \<open>
  The loader decodes three little-endian files (cameras, images, points3D) with a JavaScript
  \<^verbatim>\<open>DataView\<close>. An \<^verbatim>\<open>ArrayBuffer\<close> is a list of bytes. Every \<^verbatim>\<open>DataView\<close>
  getter throws a \<^verbatim>\<open>RangeError\<close> when the bytes it needs do not lie inside the buffer;
  exceptions are values of the type \<open>exn\<close>, and a function that may throw returns
  \<open>exn + 'a\<close> with \<open>Inl\<close> for the exception.

  A JavaScript number read by \<^verbatim>\<open>getFloat64\<close> is kept as its IEEE-754 binary64 bit
  pattern (the decoders do no arithmetic on it); a number that comes from an integer
  getter is an \<open>int\<close>.
\<close>

type_synonym byte = "8 word"
type_synonym ArrayBuffer = "byte list"
type_synonym float64 = "64 word"

datatype exn =
    RangeError                    \<comment> \<open>DataView read outside the buffer\<close>
  | TypeError                     \<comment> \<open>property read on \<^verbatim>\<open>undefined\<close>\<close>
  | NumberOfCamerasDoesNotMatch   \<comment> \<open>\<^verbatim>\<open>Error('Number of cameras does not match')\<close>\<close>
  | CameraModelNotSupported       \<comment> \<open>\<^verbatim>\<open>Error('Camera model not supported')\<close>\<close>
  | ErrorReadingPoints3D exn      \<comment> \<open>\<^verbatim>\<open>Error("Error reading points3D.bin. Original error - " + e)\<close>\<close>
  | ErrorReadingImages exn        \<comment> \<open>\<^verbatim>\<open>Error("Error reading images.bin. Original error - " + e)\<close>\<close>

text \<open>Sequencing of statements that may throw: the first exception ends the evaluation.\<close>

definition andThen :: "exn + 'a \<Rightarrow> ('a \<Rightarrow> exn + 'b) \<Rightarrow> exn + 'b" where
  "andThen m f = (case m of Inl e \<Rightarrow> Inl e | Inr x \<Rightarrow> f x)"

text \<open>The value of a little-endian byte sequence.\<close>

fun le_nat :: "byte list \<Rightarrow> nat" where
  "le_nat [] = 0"
| "le_nat (b # bs) = unat b + 256 * le_nat bs"

text \<open>Two's complement reading of an unsigned value of \<open>w\<close> bits.\<close>

definition toSigned :: "nat \<Rightarrow> nat \<Rightarrow> int" where
  "toSigned w n = (if n < 2 ^ (w - 1) then int n else int n - 2 ^ w)"

text \<open>The bounds check shared by all getters, and the bytes it hands out.\<close>

definition getBytes :: "ArrayBuffer \<Rightarrow> nat \<Rightarrow> nat \<Rightarrow> exn + byte list" where
  "getBytes buffer offset n =
     (if offset + n \<le> length buffer then Inr (take n (drop offset buffer))
      else Inl RangeError)"

definition getUint8 :: "ArrayBuffer \<Rightarrow> nat \<Rightarrow> exn + byte" where
  "getUint8 buffer offset =
     (if offset < length buffer then Inr (buffer ! offset) else Inl RangeError)"

definition getInt32 :: "ArrayBuffer \<Rightarrow> nat \<Rightarrow> exn + int" where
  "getInt32 buffer offset =
     andThen (getBytes buffer offset 4) (\<lambda>bs. Inr (toSigned 32 (le_nat bs)))"

definition getBigUint64 :: "ArrayBuffer \<Rightarrow> nat \<Rightarrow> exn + nat" where
  "getBigUint64 buffer offset =
     andThen (getBytes buffer offset 8) (\<lambda>bs. Inr (le_nat bs))"

definition getBigInt64 :: "ArrayBuffer \<Rightarrow> nat \<Rightarrow> exn + int" where
  "getBigInt64 buffer offset =
     andThen (getBytes buffer offset 8) (\<lambda>bs. Inr (toSigned 64 (le_nat bs)))"

definition getFloat64 :: "ArrayBuffer \<Rightarrow> nat \<Rightarrow> exn + float64" where
  "getFloat64 buffer offset =
     andThen (getBytes buffer offset 8) (\<lambda>bs. Inr (word_of_nat (le_nat bs)))"

text \<open>The number of binary digits of a non-negative integer.\<close>

function bitLength :: "int \<Rightarrow> nat" where
  "bitLength a = (if a \<le> 0 then 0 else Suc (bitLength (a div 2)))"
  by pat_completeness auto
termination
  by (relation "measure nat") auto

text \<open>
  \<^verbatim>\<open>Number(b)\<close> for a BigInt \<open>b\<close>: the nearest binary64 value, ties to even. Below
  \<open>2 ^ 53\<close> in absolute value it is \<open>b\<close> itself; above, the low \<open>e\<close> bits beyond the
  53-bit significand are rounded away. The 64-bit integers read here never reach the
  binary64 overflow threshold, so the result is again an integer.
\<close>

definition Number :: "int \<Rightarrow> int" where
  "Number b =
     (let a = \<bar>b\<bar>;
          e = bitLength a - 53;
          q = a div 2 ^ e;
          r = a mod 2 ^ e;
          q' = (if 2 * r > 2 ^ e \<or> (2 * r = 2 ^ e \<and> odd q) then q + 1 else q)
      in sgn b * (q' * 2 ^ e))"

text \<open>\<^verbatim>\<open>String.fromCharCode\<close> of a byte: the character with that code.\<close>

definition fromCharCode :: "byte \<Rightarrow> char" where
  "fromCharCode b = char_of (unat b)"

section \<open>Camera model registry\<close>

record CameraModel =
  model_id :: int
  model_name :: string
  num_params :: nat

definition CAMERA_MODELS :: "CameraModel list" where
  "CAMERA_MODELS =
    [\<lparr>model_id = 0, model_name = ''SIMPLE_PINHOLE'', num_params = 3\<rparr>,
     \<lparr>model_id = 1, model_name = ''PINHOLE'', num_params = 4\<rparr>,
     \<lparr>model_id = 2, model_name = ''SIMPLE_RADIAL'', num_params = 4\<rparr>,
     \<lparr>model_id = 3, model_name = ''RADIAL'', num_params = 5\<rparr>,
     \<lparr>model_id = 4, model_name = ''OPENCV'', num_params = 8\<rparr>,
     \<lparr>model_id = 5, model_name = ''OPENCV_FISHEYE'', num_params = 8\<rparr>,
     \<lparr>model_id = 6, model_name = ''FULL_OPENCV'', num_params = 12\<rparr>,
     \<lparr>model_id = 7, model_name = ''FOV'', num_params = 5\<rparr>,
     \<lparr>model_id = 8, model_name = ''SIMPLE_RADIAL_FISHEYE'', num_params = 4\<rparr>,
     \<lparr>model_id = 9, model_name = ''RADIAL_FISHEYE'', num_params = 5\<rparr>,
     \<lparr>model_id = 10, model_name = ''THIN_PRISM_FISHEYE'', num_params = 12\<rparr>]"

text \<open>
  The two lookup objects are plain object literals, filled by one \<^verbatim>\<open>forEach\<close> over
  \<open>CAMERA_MODELS\<close>, each assignment overwriting an earlier entry under the same key.

  \<open>CAMERA_MODEL_IDS\<close> is read with a number as the key. The key of the property is then
  the decimal numeral of an integer, which is not the name of any member an object
  inherits, so a lookup finds the entry stored under the id or is \<^verbatim>\<open>undefined\<close>
  (\<open>None\<close>).
\<close>

definition CAMERA_MODEL_IDS :: "int \<Rightarrow> CameraModel option" where
  "CAMERA_MODEL_IDS =
     map_of (fold (\<lambda>camera_model obj. AList.update (model_id camera_model) camera_model obj)
               CAMERA_MODELS [])"

text \<open>
  \<open>CAMERA_MODEL_NAMES\<close> is read with a string as the key. Its own properties are the
  entries that the \<^verbatim>\<open>forEach\<close> stores:
\<close>

definition CAMERA_MODEL_NAMES_own :: "string \<Rightarrow> CameraModel option" where
  "CAMERA_MODEL_NAMES_own =
     map_of (fold (\<lambda>camera_model obj. AList.update (model_name camera_model) camera_model obj)
               CAMERA_MODELS [])"





text \<open>Reading a property of a value that may be \<^verbatim>\<open>undefined\<close> throws a TypeError.\<close>

definition property :: "'a option \<Rightarrow> ('a \<Rightarrow> 'b) \<Rightarrow> exn + 'b" where
  "property obj field = (case obj of None \<Rightarrow> Inl TypeError | Some x \<Rightarrow> Inr (field x))"

section \<open>Decoded records\<close>

record CameraBin =
  camera_id :: int
  model :: string
  width :: int
  height :: int
  params :: "float64 list"

record ImageBin =
  image_camera_id :: int
  image_id :: int
  name :: string
  point3D_ids :: "int list"
  qvec :: "float64 \<times> float64 \<times> float64 \<times> float64"
  tvec :: "float64 \<times> float64 \<times> float64"
  xys :: "(float64 \<times> float64) list"

record PointBin =
  point_id :: int
  xyz :: "float64 \<times> float64 \<times> float64"
  rgb :: "byte \<times> byte \<times> byte"
  error :: float64
  imageIds :: "int list"
  point2DIdxs :: "int list"

text \<open>
  The decoders return a JavaScript object used as a dictionary from the record id to the
  record. It is an association list with distinct keys: \<open>AList.update\<close> is the assignment
  \<^verbatim>\<open>obj[key] = value\<close>, \<open>map_of\<close> the lookup and \<open>length\<close> is
  \<^verbatim>\<open>Object.keys(obj).length\<close>. The list keeps the keys in the order of their first
  assignment; the order in which JavaScript enumerates the keys is not modelled, and
  the statements below read a dictionary through \<open>map_of\<close>, \<open>set\<close> and \<open>length\<close> only.
\<close>

type_synonym 'a dict = "(int \<times> 'a) list"

section \<open>readCamerasBinary\<close>

text \<open>The inner loop: \<open>numParams\<close> reads of 8 bytes, pushed onto \<open>params\<close>.\<close>

fun readParams :: "ArrayBuffer \<Rightarrow> nat \<Rightarrow> nat \<Rightarrow> float64 list \<Rightarrow> exn + (float64 list \<times> nat)" where
  "readParams buffer 0 offset ps = Inr (ps, offset)"
| "readParams buffer (Suc n) offset ps =
     (case getFloat64 buffer offset of
        Inl e \<Rightarrow> Inl e
      | Inr p \<Rightarrow> readParams buffer n (offset + 8) (ps @ [p]))"

text \<open>
  One iteration of the outer loop: the 24-byte header is read first, then the registry
  is consulted (twice, for \<open>model_name\<close> and for \<open>num_params\<close>), then the parameters
  are read. The result is the record and the offset behind it.
\<close>

definition readCamera :: "ArrayBuffer \<Rightarrow> nat \<Rightarrow> exn + (CameraBin \<times> nat)" where
  "readCamera buffer offset =
     andThen (getInt32 buffer offset) (\<lambda>cameraId.
     andThen (getInt32 buffer (offset + 4)) (\<lambda>modelId.
     andThen (getBigInt64 buffer (offset + 8)) (\<lambda>w.
     andThen (getBigInt64 buffer (offset + 16)) (\<lambda>h.
     andThen (property (CAMERA_MODEL_IDS modelId) model_name) (\<lambda>modelName.
     andThen (property (CAMERA_MODEL_IDS modelId) num_params) (\<lambda>numParams.
     andThen (readParams buffer numParams (offset + 24) []) (\<lambda>(ps, offset').
       Inr (\<lparr>camera_id = cameraId, model = modelName, width = Number w,
              height = Number h, params = ps\<rparr>, offset'))))))))"

text \<open>
  The outer loop runs \<open>numCameras\<close> times unless a read throws; the first argument
  counts the iterations that are left. (The loop counter and the offset are JavaScript
  numbers. They are exact below \<open>2 ^ 53\<close>, and every iteration reads at least 24
  bytes, so they stay exact on every buffer that an \<^verbatim>\<open>ArrayBuffer\<close> can hold.)
\<close>

fun camerasLoop :: "ArrayBuffer \<Rightarrow> nat \<Rightarrow> nat \<Rightarrow> CameraBin dict \<Rightarrow> exn + (CameraBin dict \<times> nat)" where
  "camerasLoop buffer 0 offset cameras = Inr (cameras, offset)"
| "camerasLoop buffer (Suc n) offset cameras =
     (case readCamera buffer offset of
        Inl e \<Rightarrow> Inl e
      | Inr (c, offset') \<Rightarrow>
          camerasLoop buffer n offset' (AList.update (camera_id c) c cameras))"

definition readCamerasBinary :: "ArrayBuffer \<Rightarrow> exn + CameraBin dict" where
  "readCamerasBinary buffer =
     andThen (getBigUint64 buffer 0) (\<lambda>numCameras.
     andThen (camerasLoop buffer numCameras 8 []) (\<lambda>(cameras, offset).
       if int (length cameras) \<noteq> Number (int numCameras)
       then Inl NumberOfCamerasDoesNotMatch
       else Inr cameras))"

section \<open>readImagesBinary\<close>

text \<open>
  The name scan: bytes are read one at a time until a zero byte; every byte before it is
  appended to the name, and the terminator is stepped over. \<open>getUint8\<close> throws
  behind the last byte of the buffer, which ends the loop there.
\<close>

function readName :: "ArrayBuffer \<Rightarrow> nat \<Rightarrow> string \<Rightarrow> exn + (string \<times> nat)" where
  "readName buffer offset binaryImageName =
     (case getUint8 buffer offset of
        Inl e \<Rightarrow> Inl e
      | Inr currentChar \<Rightarrow>
          if currentChar \<noteq> 0
          then readName buffer (offset + 1) (binaryImageName @ [fromCharCode currentChar])
          else Inr (binaryImageName, offset + 1))"
  by pat_completeness auto
termination
  by (relation "measure (\<lambda>(buffer, offset, binaryImageName). length buffer - offset)")
     (auto simp: getUint8_def split: if_splits)

text \<open>The keypoint loop: two floats and a signed 64-bit id per keypoint.\<close>

fun readPoints2D ::
  "ArrayBuffer \<Rightarrow> nat \<Rightarrow> nat \<Rightarrow> (float64 \<times> float64) list \<Rightarrow> int list
     \<Rightarrow> exn + ((float64 \<times> float64) list \<times> int list \<times> nat)" where
  "readPoints2D buffer 0 offset xs ids = Inr (xs, ids, offset)"
| "readPoints2D buffer (Suc n) offset xs ids =
     (case getFloat64 buffer offset of
        Inl e \<Rightarrow> Inl e
      | Inr x \<Rightarrow>
     (case getFloat64 buffer (offset + 8) of
        Inl e \<Rightarrow> Inl e
      | Inr y \<Rightarrow>
     (case getBigInt64 buffer (offset + 16) of
        Inl e \<Rightarrow> Inl e
      | Inr i \<Rightarrow> readPoints2D buffer n (offset + 24) (xs @ [(x, y)]) (ids @ [Number i]))))"

text \<open>
  One image record. The nine fixed properties (the loop over \<open>j\<close>, unrolled) take
  64 bytes: an int32, four and three float64, an int32.
\<close>

definition readImage :: "ArrayBuffer \<Rightarrow> nat \<Rightarrow> exn + (ImageBin \<times> nat)" where
  "readImage buffer offset =
     andThen (getInt32 buffer offset) (\<lambda>imageId.
     andThen (getFloat64 buffer (offset + 4)) (\<lambda>q0.
     andThen (getFloat64 buffer (offset + 12)) (\<lambda>q1.
     andThen (getFloat64 buffer (offset + 20)) (\<lambda>q2.
     andThen (getFloat64 buffer (offset + 28)) (\<lambda>q3.
     andThen (getFloat64 buffer (offset + 36)) (\<lambda>t0.
     andThen (getFloat64 buffer (offset + 44)) (\<lambda>t1.
     andThen (getFloat64 buffer (offset + 52)) (\<lambda>t2.
     andThen (getInt32 buffer (offset + 60)) (\<lambda>cameraId.
     andThen (readName buffer (offset + 64) []) (\<lambda>(image_name, offset1).
     andThen (getBigUint64 buffer offset1) (\<lambda>numPoints2D.
     andThen (readPoints2D buffer numPoints2D (offset1 + 8) [] []) (\<lambda>(xs, point3DIds, offset2).
       Inr (\<lparr>image_camera_id = cameraId, image_id = imageId, name = image_name,
              point3D_ids = point3DIds, qvec = (q0, q1, q2, q3), tvec = (t0, t1, t2),
              xys = xs\<rparr>, offset2)))))))))))))"

fun imagesLoop :: "ArrayBuffer \<Rightarrow> nat \<Rightarrow> nat \<Rightarrow> ImageBin dict \<Rightarrow> exn + (ImageBin dict \<times> nat)" where
  "imagesLoop buffer 0 offset images = Inr (images, offset)"
| "imagesLoop buffer (Suc n) offset images =
     (case readImage buffer offset of
        Inl e \<Rightarrow> Inl e
      | Inr (i, offset') \<Rightarrow>
          imagesLoop buffer n offset' (AList.update (image_id i) i images))"

text \<open>The whole body is inside \<^verbatim>\<open>try\<close>; whatever is thrown is rethrown wrapped.\<close>

definition readImagesBinary :: "ArrayBuffer \<Rightarrow> exn + ImageBin dict" where
  "readImagesBinary buffer =
     (case andThen (getBigUint64 buffer 0) (\<lambda>numRegImages. imagesLoop buffer numRegImages 8 []) of
        Inl e \<Rightarrow> Inl (ErrorReadingImages e)
      | Inr (images, offset) \<Rightarrow> Inr images)"

section \<open>readPoints3DBinary\<close>

text \<open>The track loop: two int32 per track element.\<close>

fun readTrack ::
  "ArrayBuffer \<Rightarrow> nat \<Rightarrow> nat \<Rightarrow> int list \<Rightarrow> int list \<Rightarrow> exn + (int list \<times> int list \<times> nat)" where
  "readTrack buffer 0 offset is js = Inr (is, js, offset)"
| "readTrack buffer (Suc n) offset is js =
     (case getInt32 buffer offset of
        Inl e \<Rightarrow> Inl e
      | Inr imageId \<Rightarrow>
     (case getInt32 buffer (offset + 4) of
        Inl e \<Rightarrow> Inl e
      | Inr point2DIdx \<Rightarrow> readTrack buffer n (offset + 8) (is @ [imageId]) (js @ [point2DIdx])))"

text \<open>One point record: 43 fixed bytes, the 8-byte track length, then the track.\<close>

definition readPoint3D :: "ArrayBuffer \<Rightarrow> nat \<Rightarrow> exn + (PointBin \<times> nat)" where
  "readPoint3D buffer offset =
     andThen (getBigUint64 buffer offset) (\<lambda>point3DId.
     andThen (getFloat64 buffer (offset + 8)) (\<lambda>x.
     andThen (getFloat64 buffer (offset + 16)) (\<lambda>y.
     andThen (getFloat64 buffer (offset + 24)) (\<lambda>z.
     andThen (getUint8 buffer (offset + 32)) (\<lambda>r.
     andThen (getUint8 buffer (offset + 33)) (\<lambda>g.
     andThen (getUint8 buffer (offset + 34)) (\<lambda>b.
     andThen (getFloat64 buffer (offset + 35)) (\<lambda>err.
     andThen (getBigUint64 buffer (offset + 43)) (\<lambda>trackLength.
     andThen (readTrack buffer trackLength (offset + 51) [] []) (\<lambda>(is, js, offset').
       Inr (\<lparr>point_id = Number (int point3DId), xyz = (x, y, z), rgb = (r, g, b),
              error = err, imageIds = is, point2DIdxs = js\<rparr>, offset')))))))))))"

fun pointsLoop :: "ArrayBuffer \<Rightarrow> nat \<Rightarrow> nat \<Rightarrow> PointBin dict \<Rightarrow> exn + (PointBin dict \<times> nat)" where
  "pointsLoop buffer 0 offset points3D = Inr (points3D, offset)"
| "pointsLoop buffer (Suc n) offset points3D =
     (case readPoint3D buffer offset of
        Inl e \<Rightarrow> Inl e
      | Inr (p, offset') \<Rightarrow>
          pointsLoop buffer n offset' (AList.update (point_id p) p points3D))"

definition readPoints3DBinary :: "ArrayBuffer \<Rightarrow> exn + PointBin dict" where
  "readPoints3DBinary buffer =
     (case andThen (getBigUint64 buffer 0) (\<lambda>numPoints. pointsLoop buffer numPoints 8 []) of
        Inl e \<Rightarrow> Inl (ErrorReadingPoints3D e)
      | Inr (points3D, offset) \<Rightarrow> Inr points3D)"

section \<open>createCameraMesh\<close>

text \<open>
  Reading an array element: \<^verbatim>\<open>undefined\<close> (\<open>None\<close>) outside the array, never an
  exception.
\<close>

definition element :: "'a list \<Rightarrow> nat \<Rightarrow> 'a option" where
  "element xs i = (if i < length xs then Some (xs ! i) else None)"

text \<open>
  The function first selects the intrinsics \<open>fx, fy, cx, cy\<close> by the model name, or
  throws; everything after that is geometry built with three.js from the image size and
  the intrinsics, here the parameter \<open>pyramid\<close>.
\<close>

definition createCameraMesh ::
  "(int \<Rightarrow> int \<Rightarrow> float64 option \<Rightarrow> float64 option \<Rightarrow> float64 option \<Rightarrow> float64 option \<Rightarrow> 'mesh)
     \<Rightarrow> CameraBin \<Rightarrow> exn + 'mesh" where
  "createCameraMesh pyramid camera =
     (let w = width camera; h = height camera in
      if model camera \<in> set [''SIMPLE_PINHOLE'', ''SIMPLE_RADIAL'', ''RADIAL'']
      then Inr (pyramid w h (element (params camera) 0) (element (params camera) 0)
                  (element (params camera) 1) (element (params camera) 2))
      else if model camera \<in> set [''PINHOLE'', ''OPENCV'', ''OPENCV_FISHEYE'', ''FULL_OPENCV'']
      then Inr (pyramid w h (element (params camera) 0) (element (params camera) 1)
                  (element (params camera) 2) (element (params camera) 3))
      else Inl CameraModelNotSupported)"

section \<open>The wire layouts\<close>

text \<open>
  The repository has no encoder. The functions of this section write records in the
  little-endian layouts that the specification gives for the three files (its sections
  4.2 to 4.4); they are what the decoders are compared with.
\<close>

fun le_bytes :: "nat \<Rightarrow> nat \<Rightarrow> byte list" where
  "le_bytes 0 v = []"
| "le_bytes (Suc k) v = word_of_nat v # le_bytes k (v div 256)"

definition encodeInt32 :: "int \<Rightarrow> byte list" where
  "encodeInt32 x = le_bytes 4 (nat (x mod 2 ^ 32))"

definition encodeInt64 :: "int \<Rightarrow> byte list" where
  "encodeInt64 x = le_bytes 8 (nat (x mod 2 ^ 64))"

definition encodeUint64 :: "nat \<Rightarrow> byte list" where
  "encodeUint64 v = le_bytes 8 v"

definition encodeFloat64 :: "float64 \<Rightarrow> byte list" where
  "encodeFloat64 x = le_bytes 8 (unat x)"

definition encodeName :: "string \<Rightarrow> byte list" where
  "encodeName s = map (\<lambda>c. word_of_nat (of_char c)) s @ [0]"

text \<open>
  A camera record: \<open>camera_id\<close>, \<open>model_id\<close> (that of the registry entry with the
  model name), \<open>width\<close>, \<open>height\<close>, then the parameters. A model name outside the
  registry has no \<open>model_id\<close>; \<open>encodableCamera\<close> below excludes it.
\<close>

definition encodeCamera :: "CameraBin \<Rightarrow> byte list" where
  "encodeCamera c =
     encodeInt32 (camera_id c) @
     encodeInt32 (case CAMERA_MODEL_NAMES_own (model c) of Some m \<Rightarrow> model_id m | None \<Rightarrow> - 1) @
     encodeInt64 (width c) @ encodeInt64 (height c) @
     concat (map encodeFloat64 (params c))"

definition encodeCameras :: "CameraBin list \<Rightarrow> ArrayBuffer" where
  "encodeCameras cs = encodeUint64 (length cs) @ concat (map encodeCamera cs)"

definition encodePoint2D :: "(float64 \<times> float64) \<times> int \<Rightarrow> byte list" where
  "encodePoint2D k = (case k of ((x, y), i) \<Rightarrow> encodeFloat64 x @ encodeFloat64 y @ encodeInt64 i)"

definition encodeImage :: "ImageBin \<Rightarrow> byte list" where
  "encodeImage i =
     (case (qvec i, tvec i) of ((q0, q1, q2, q3), (t0, t1, t2)) \<Rightarrow>
        encodeInt32 (image_id i) @
        encodeFloat64 q0 @ encodeFloat64 q1 @ encodeFloat64 q2 @ encodeFloat64 q3 @
        encodeFloat64 t0 @ encodeFloat64 t1 @ encodeFloat64 t2 @
        encodeInt32 (image_camera_id i) @
        encodeName (name i) @
        encodeUint64 (length (xys i)) @
        concat (map encodePoint2D (zip (xys i) (point3D_ids i))))"

definition encodeImages :: "ImageBin list \<Rightarrow> ArrayBuffer" where
  "encodeImages is = encodeUint64 (length is) @ concat (map encodeImage is)"

definition encodeTrackElement :: "int \<times> int \<Rightarrow> byte list" where
  "encodeTrackElement t = (case t of (i, j) \<Rightarrow> encodeInt32 i @ encodeInt32 j)"

definition encodePoint3D :: "PointBin \<Rightarrow> byte list" where
  "encodePoint3D p =
     (case (xyz p, rgb p) of ((x, y, z), (r, g, b)) \<Rightarrow>
        encodeUint64 (nat (point_id p)) @
        encodeFloat64 x @ encodeFloat64 y @ encodeFloat64 z @
        [r, g, b] @
        encodeFloat64 (error p) @
        encodeUint64 (length (imageIds p)) @
        concat (map encodeTrackElement (zip (imageIds p) (point2DIdxs p))))"

definition encodePoints3D :: "PointBin list \<Rightarrow> ArrayBuffer" where
  "encodePoints3D ps = encodeUint64 (length ps) @ concat (map encodePoint3D ps)"

text \<open>
  Which records the layouts can hold: every integer fits its field, a number stored in a
  64-bit integer field is one that \<open>Number\<close> returns unchanged, a name has no zero
  character, parallel sequences have one length, and a camera has the parameters of its
  model.
\<close>

definition isInt32 :: "int \<Rightarrow> bool" where
  "isInt32 x = (- (2 ^ 31) \<le> x \<and> x < 2 ^ 31)"

definition isInt64Number :: "int \<Rightarrow> bool" where
  "isInt64Number x = (- (2 ^ 63) \<le> x \<and> x < 2 ^ 63 \<and> Number x = x)"

definition isUint64Number :: "int \<Rightarrow> bool" where
  "isUint64Number x = (0 \<le> x \<and> x < 2 ^ 64 \<and> Number x = x)"

definition encodableCamera :: "CameraBin \<Rightarrow> bool" where
  "encodableCamera c =
     (isInt32 (camera_id c) \<and> isInt64Number (width c) \<and> isInt64Number (height c) \<and>
      (case CAMERA_MODEL_NAMES_own (model c) of
         None \<Rightarrow> False
       | Some m \<Rightarrow> length (params c) = num_params m))"

definition encodableImage :: "ImageBin \<Rightarrow> bool" where
  "encodableImage i =
     (isInt32 (image_id i) \<and> isInt32 (image_camera_id i) \<and>
      CHR 0x00 \<notin> set (name i) \<and>
      length (point3D_ids i) = length (xys i) \<and> length (xys i) < 2 ^ 64 \<and>
      list_all isInt64Number (point3D_ids i))"

definition encodablePoint3D :: "PointBin \<Rightarrow> bool" where
  "encodablePoint3D p =
     (isUint64Number (point_id p) \<and>
      length (point2DIdxs p) = length (imageIds p) \<and> length (imageIds p) < 2 ^ 64 \<and>
      list_all isInt32 (imageIds p) \<and> list_all isInt32 (point2DIdxs p))"

text \<open>The dictionary that holds the records of a list under their ids, in list order.\<close>

definition keyed :: "('a \<Rightarrow> int) \<Rightarrow> 'a list \<Rightarrow> 'a dict" where
  "keyed key rs = map (\<lambda>r. (key r, r)) rs"

section \<open>Auxiliary notions for the proofs\<close>

text \<open>The bytes \<open>bs\<close> lie in the buffer from \<open>offset\<close> on.\<close>

definition bytesAt :: "ArrayBuffer \<Rightarrow> nat \<Rightarrow> byte list \<Rightarrow> bool" where
  "bytesAt buffer offset bs =
     (offset + length bs \<le> length buffer \<and> take (length bs) (drop offset buffer) = bs)"

text \<open>The last record of a list that carries the key \<open>k\<close>, if there is one.\<close>

definition lastRecord :: "('a \<Rightarrow> int) \<Rightarrow> int \<Rightarrow> 'a list \<Rightarrow> 'a option" where
  "lastRecord key k rs =
     (case filter (\<lambda>r. key r = k) rs of [] \<Rightarrow> None | m # ms \<Rightarrow> Some (last (m # ms)))"

section \<open>Example records and buffers\<close>

text \<open>
  The camera of the specification's concrete scenario (a PINHOLE camera of 1920 by 1080
  with parameters 1000.0, 1000.0, 960.0, 540.0, written as binary64 bit patterns), an
  image with the identity pose, an empty name and one keypoint without a 3D point, and a
  point with an empty track.
\<close>

definition exampleCamera :: CameraBin where
  "exampleCamera =
     \<lparr>camera_id = 1, model = ''PINHOLE'', width = 1920, height = 1080,
      params = [0x408F400000000000, 0x408F400000000000, 0x408E000000000000, 0x4080E00000000000]\<rparr>"

definition exampleImage :: ImageBin where
  "exampleImage =
     \<lparr>image_camera_id = 1, image_id = 7, name = [], point3D_ids = [- 1],
      qvec = (0x3FF0000000000000, 0, 0, 0), tvec = (0, 0, 0), xys = [(0, 0)]\<rparr>"

definition examplePoint :: PointBin where
  "examplePoint =
     \<lparr>point_id = 3, xyz = (0, 0, 0), rgb = (255, 0, 0), error = 0,
      imageIds = [], point2DIdxs = []\<rparr>"

text \<open>
  Two SIMPLE_PINHOLE cameras that share the id 1, and the 104 bytes of a cameras file
  that declares two cameras and holds these two records.
\<close>

definition firstCamera :: CameraBin where
  "firstCamera =
     \<lparr>camera_id = 1, model = ''SIMPLE_PINHOLE'', width = 640, height = 480,
      params = [0x4080000000000000, 0x4074000000000000, 0x406E000000000000]\<rparr>"

definition secondCamera :: CameraBin where
  "secondCamera =
     \<lparr>camera_id = 1, model = ''SIMPLE_PINHOLE'', width = 800, height = 600,
      params = [0x4080000000000000, 0x4079000000000000, 0x4072C00000000000]\<rparr>"

definition duplicateIdCameras :: ArrayBuffer where
  "duplicateIdCameras =
     [2, 0, 0, 0, 0, 0, 0, 0,
      1, 0, 0, 0,  0, 0, 0, 0,  128, 2, 0, 0, 0, 0, 0, 0,  224, 1, 0, 0, 0, 0, 0, 0,
      0, 0, 0, 0, 0, 0, 128, 64,  0, 0, 0, 0, 0, 0, 116, 64,  0, 0, 0, 0, 0, 0, 110, 64,
      1, 0, 0, 0,  0, 0, 0, 0,  32, 3, 0, 0, 0, 0, 0, 0,  88, 2, 0, 0, 0, 0, 0, 0,
      0, 0, 0, 0, 0, 0, 128, 64,  0, 0, 0, 0, 0, 0, 121, 64,  0, 0, 0, 0, 0, 192, 114, 64]"

text \<open>A second image record with the id of \<open>exampleImage\<close>.\<close>

definition secondImage :: ImageBin where
  "secondImage =
     \<lparr>image_camera_id = 2, image_id = 7, name = ''b.jpg'', point3D_ids = [],
      qvec = (0x3FF0000000000000, 0, 0, 0), tvec = (0, 0, 0), xys = []\<rparr>"

text \<open>
  An images file that declares one image; the 64 fixed bytes of the record are followed by
  the three characters \<open>ABC\<close> and the end of the buffer, without a terminator.
\<close>

definition unterminatedNameImages :: ArrayBuffer where
  "unterminatedNameImages = [1, 0, 0, 0, 0, 0, 0, 0] @ replicate 64 1 @ [65, 66, 67]"

text \<open>
  An images file that declares two images: the record of \<open>exampleImage\<close>, then a second
  record whose 64 fixed bytes are followed by \<open>ABC\<close> and the end of the buffer.
\<close>

definition unterminatedSecondName :: ArrayBuffer where
  "unterminatedSecondName =
     (encodeUint64 2 @ encodeImage exampleImage) @ replicate 64 1 @ [65, 66, 67]"

lemma andThen_simps [simp]:
  "andThen (Inl e) f = Inl e" "andThen (Inr x) f = f x"
  by (simp_all add: andThen_def)

lemma length_le_bytes [simp]: "length (le_bytes k v) = k"
  by (induction k arbitrary: v) auto

lemma unat_byte_of_nat: "unat (word_of_nat v :: byte) = v mod 256"
  by (simp add: unat_of_nat)

lemma le_nat_le_bytes: "le_nat (le_bytes k v) = v mod 256 ^ k"
proof (induction k arbitrary: v)
  case 0
  show ?case by simp
next
  case (Suc k)
  then show ?case
    by (simp add: unat_byte_of_nat mod_mult2_eq)
qed

lemma length_encode [simp]:
  "length (encodeInt32 x) = 4" "length (encodeInt64 x) = 8"
  "length (encodeUint64 v) = 8" "length (encodeFloat64 w) = 8"
  "length (encodeName s) = Suc (length s)"
  by (simp_all add: encodeInt32_def encodeInt64_def encodeUint64_def encodeFloat64_def
      encodeName_def)

lemma bytesAt_append:
  "bytesAt buffer offset (as @ bs) \<longleftrightarrow>
     bytesAt buffer offset as \<and> bytesAt buffer (offset + length as) bs"
proof -
  have split: "take (length as + length bs) (drop offset buffer)
      = take (length as) (drop offset buffer)
        @ take (length bs) (drop (offset + length as) buffer)"
    by (simp add: take_add add.commute)
  show ?thesis
  proof
    assume h: "bytesAt buffer offset (as @ bs)"
    then have len: "offset + length as + length bs \<le> length buffer"
      by (simp add: bytesAt_def)
    from h have "take (length as) (drop offset buffer)
        @ take (length bs) (drop (offset + length as) buffer) = as @ bs"
      using split by (simp add: bytesAt_def)
    moreover have "length (take (length as) (drop offset buffer)) = length as"
      using len by simp
    ultimately have "take (length as) (drop offset buffer) = as
        \<and> take (length bs) (drop (offset + length as) buffer) = bs"
      by (metis append_eq_append_conv)
    with len show "bytesAt buffer offset as \<and> bytesAt buffer (offset + length as) bs"
      by (simp add: bytesAt_def)
  next
    assume "bytesAt buffer offset as \<and> bytesAt buffer (offset + length as) bs"
    then show "bytesAt buffer offset (as @ bs)"
      using split by (simp add: bytesAt_def)
  qed
qed

lemma bytesAt_Nil [simp]: "bytesAt buffer offset [] \<longleftrightarrow> offset \<le> length buffer"
  by (simp add: bytesAt_def)

lemma bytesAt_middle: "bytesAt (pre @ bs @ post) (length pre) bs"
  by (simp add: bytesAt_def)

lemma bytesAt_whole: "bytesAt bs 0 bs"
  by (simp add: bytesAt_def)

lemma bytesAt_bound: "bytesAt buffer offset bs \<Longrightarrow> offset + length bs \<le> length buffer"
  by (simp add: bytesAt_def)

lemma getBytes_bytesAt:
  "bytesAt buffer offset bs \<Longrightarrow> length bs = n \<Longrightarrow> getBytes buffer offset n = Inr bs"
  by (auto simp: bytesAt_def getBytes_def)

lemma toSigned_32: "isInt32 x \<Longrightarrow> toSigned 32 (nat (x mod 2 ^ 32)) = x"
proof -
  assume h: "isInt32 x"
  show ?thesis
  proof (cases "0 \<le> x")
    case True
    with h have "x mod 2 ^ 32 = x" by (simp add: isInt32_def)
    with h True show ?thesis by (simp add: toSigned_def isInt32_def nat_less_iff)
  next
    case False
    with h have "(x + 2 ^ 32) mod 2 ^ 32 = x + 2 ^ 32"
      by (intro mod_pos_pos_trivial) (simp_all add: isInt32_def)
    then have "x mod 2 ^ 32 = x + 2 ^ 32" by simp
    with h False show ?thesis by (simp add: toSigned_def isInt32_def nat_less_iff)
  qed
qed

lemma toSigned_64:
  "- (2 ^ 63) \<le> x \<Longrightarrow> x < 2 ^ 63 \<Longrightarrow> toSigned 64 (nat (x mod 2 ^ 64)) = x"
proof -
  assume h: "- (2 ^ 63) \<le> x" "x < 2 ^ 63"
  show ?thesis
  proof (cases "0 \<le> x")
    case True
    with h have "x mod 2 ^ 64 = x" by simp
    with h True show ?thesis by (simp add: toSigned_def nat_less_iff)
  next
    case False
    with h have "(x + 2 ^ 64) mod 2 ^ 64 = x + 2 ^ 64"
      by (intro mod_pos_pos_trivial) simp_all
    then have "x mod 2 ^ 64 = x + 2 ^ 64" by simp
    with h False show ?thesis by (simp add: toSigned_def nat_less_iff)
  qed
qed

lemma getInt32_encode:
  "bytesAt buffer offset (encodeInt32 x) \<Longrightarrow> isInt32 x \<Longrightarrow> getInt32 buffer offset = Inr x"
proof -
  assume b: "bytesAt buffer offset (encodeInt32 x)" and x: "isInt32 x"
  have "nat (x mod 2 ^ 32) < 2 ^ 32" by (simp add: nat_less_iff)
  then have "le_nat (encodeInt32 x) = nat (x mod 2 ^ 32)"
    by (simp add: encodeInt32_def le_nat_le_bytes)
  with toSigned_32 [OF x] show ?thesis
    by (simp add: getInt32_def getBytes_bytesAt [OF b])
qed

lemma getBigInt64_encode:
  "bytesAt buffer offset (encodeInt64 x) \<Longrightarrow> - (2 ^ 63) \<le> x \<Longrightarrow> x < 2 ^ 63
     \<Longrightarrow> getBigInt64 buffer offset = Inr x"
proof -
  assume b: "bytesAt buffer offset (encodeInt64 x)" and x: "- (2 ^ 63) \<le> x" "x < 2 ^ 63"
  have "nat (x mod 2 ^ 64) < 2 ^ 64" by (simp add: nat_less_iff)
  then have "le_nat (encodeInt64 x) = nat (x mod 2 ^ 64)"
    by (simp add: encodeInt64_def le_nat_le_bytes)
  with toSigned_64 [OF x] show ?thesis
    by (simp add: getBigInt64_def getBytes_bytesAt [OF b])
qed

lemma getBigUint64_encode:
  "bytesAt buffer offset (encodeUint64 v) \<Longrightarrow> v < 2 ^ 64 \<Longrightarrow> getBigUint64 buffer offset = Inr v"
  by (simp add: getBigUint64_def getBytes_bytesAt [where bs = "encodeUint64 v"])
     (simp add: encodeUint64_def le_nat_le_bytes)

lemma getFloat64_encode:
  "bytesAt buffer offset (encodeFloat64 x) \<Longrightarrow> getFloat64 buffer offset = Inr x"
proof -
  assume b: "bytesAt buffer offset (encodeFloat64 x)"
  have "unat x < 2 ^ 64" using unsigned_less [of x] by simp
  then have "le_nat (encodeFloat64 x) = unat x"
    by (simp add: encodeFloat64_def le_nat_le_bytes)
  with b show ?thesis
    by (simp add: getFloat64_def getBytes_bytesAt [OF b])
qed

lemma getUint8_bytesAt: "bytesAt buffer offset [b] \<Longrightarrow> getUint8 buffer offset = Inr b"
  by (auto simp: bytesAt_def getUint8_def take_Suc_conv_app_nth hd_drop_conv_nth
      dest!: arg_cong [where f = hd])

declare bitLength.simps [simp del]

lemma bitLength_le: "a < 2 ^ n \<Longrightarrow> bitLength a \<le> n"
proof (induction n arbitrary: a)
  case 0
  then show ?case by (simp add: bitLength.simps)
next
  case (Suc n)
  show ?case
  proof (cases "a \<le> 0")
    case True
    then show ?thesis by (simp add: bitLength.simps)
  next
    case False
    from Suc.prems have "a div 2 < 2 ^ n" by simp
    then have "bitLength (a div 2) \<le> n" by (rule Suc.IH)
    with False show ?thesis by (subst bitLength.simps) simp
  qed
qed

lemma bitLength_ge: "2 ^ n \<le> a \<Longrightarrow> Suc n \<le> bitLength a"
proof (induction n arbitrary: a)
  case 0
  then show ?case by (subst bitLength.simps) simp
next
  case (Suc n)
  then have "2 ^ n \<le> a div 2" by simp
  then have "Suc n \<le> bitLength (a div 2)" by (rule Suc.IH)
  moreover have "0 < a" using Suc.prems by (smt (verit) zero_less_power)
  ultimately show ?case by (subst bitLength.simps) simp
qed

lemma bitLength_lower: "0 < a \<Longrightarrow> 2 ^ (bitLength a - 1) \<le> a"
proof (induction a rule: bitLength.induct)
  case (1 a)
  show ?case
  proof (cases "a div 2 = 0")
    case True
    then have "bitLength (a div 2) = 0" by (simp add: bitLength.simps)
    with 1 show ?thesis by (subst bitLength.simps) simp
  next
    case False
    with 1 have pos: "0 < a div 2" by simp
    with 1 have "2 ^ (bitLength (a div 2) - 1) \<le> a div 2" by simp
    moreover have "0 < bitLength (a div 2)" using pos by (subst bitLength.simps) simp
    then have "(2::int) ^ bitLength (a div 2) = 2 * 2 ^ (bitLength (a div 2) - 1)"
      by (cases "bitLength (a div 2)") simp_all
    ultimately have "2 ^ bitLength (a div 2) \<le> a" by simp
    with 1 show ?thesis by (subst bitLength.simps) simp
  qed
qed

lemma Number_small: "\<bar>x\<bar> < 2 ^ 53 \<Longrightarrow> Number x = x"
proof -
  assume "\<bar>x\<bar> < 2 ^ 53"
  then have "bitLength \<bar>x\<bar> \<le> 53" by (rule bitLength_le)
  then have "bitLength \<bar>x\<bar> - 53 = 0" by simp
  then show ?thesis by (simp add: Number_def Let_def mult_sgn_abs)
qed

lemma Number_large: "2 ^ 53 \<le> x \<Longrightarrow> 2 ^ 53 \<le> Number x"
proof -
  assume h: "2 ^ 53 \<le> x"
  then have pos: "0 < x" by simp
  define e where "e = bitLength x - 53"
  define q where "q = x div 2 ^ e"
  from h have "Suc 53 \<le> bitLength x" by (rule bitLength_ge)
  then have bl: "bitLength x - 1 = 52 + e" by (simp add: e_def)
  have "(2::int) ^ (52 + e) \<le> x" using bitLength_lower [OF pos] bl by simp
  then have "2 ^ (52 + e) div 2 ^ e \<le> x div (2::int) ^ e" by (rule zdiv_mono1) simp
  then have q52: "2 ^ 52 \<le> q" by (simp add: q_def power_add)
  have "(2::int) ^ 53 \<le> 2 ^ 52 * 2 ^ 1" by simp
  also have "\<dots> \<le> 2 ^ 52 * 2 ^ e"
    using \<open>Suc 53 \<le> bitLength x\<close> by (intro mult_left_mono power_increasing) (simp_all add: e_def)
  also have "\<dots> \<le> q * 2 ^ e" using q52 by (intro mult_right_mono) simp_all
  finally have a: "2 ^ 53 \<le> q * 2 ^ e" .
  have b: "q * 2 ^ e \<le> (q + 1) * 2 ^ e" by (intro mult_right_mono) simp_all
  from a b have c: "2 ^ 53 \<le> (q + 1) * 2 ^ e" by linarith
  from pos have "\<bar>x\<bar> = x" "sgn x = 1" by simp_all
  then show ?thesis
    using a c unfolding Number_def Let_def by (simp add: e_def [symmetric] q_def [symmetric])
qed

lemma CAMERA_MODEL_IDS_table:
  "CAMERA_MODEL_IDS k =
    (if k = 0 then Some \<lparr>model_id = 0, model_name = ''SIMPLE_PINHOLE'', num_params = 3\<rparr>
     else if k = 1 then Some \<lparr>model_id = 1, model_name = ''PINHOLE'', num_params = 4\<rparr>
     else if k = 2 then Some \<lparr>model_id = 2, model_name = ''SIMPLE_RADIAL'', num_params = 4\<rparr>
     else if k = 3 then Some \<lparr>model_id = 3, model_name = ''RADIAL'', num_params = 5\<rparr>
     else if k = 4 then Some \<lparr>model_id = 4, model_name = ''OPENCV'', num_params = 8\<rparr>
     else if k = 5 then Some \<lparr>model_id = 5, model_name = ''OPENCV_FISHEYE'', num_params = 8\<rparr>
     else if k = 6 then Some \<lparr>model_id = 6, model_name = ''FULL_OPENCV'', num_params = 12\<rparr>
     else if k = 7 then Some \<lparr>model_id = 7, model_name = ''FOV'', num_params = 5\<rparr>
     else if k = 8 then Some \<lparr>model_id = 8, model_name = ''SIMPLE_RADIAL_FISHEYE'', num_params = 4\<rparr>
     else if k = 9 then Some \<lparr>model_id = 9, model_name = ''RADIAL_FISHEYE'', num_params = 5\<rparr>
     else if k = 10 then Some \<lparr>model_id = 10, model_name = ''THIN_PRISM_FISHEYE'', num_params = 12\<rparr>
     else None)"
  by (simp add: CAMERA_MODEL_IDS_def CAMERA_MODELS_def)


lemma map_of_fold_update:
  "map_of (fold (\<lambda>r. AList.update (key r) r) rs acc) k = Some v \<Longrightarrow>
     (v \<in> set rs \<and> key v = k) \<or> map_of acc k = Some v"
proof (induction rs arbitrary: acc)
  case Nil
  then show ?case by simp
next
  case (Cons r rs)
  from Cons.prems have "map_of (fold (\<lambda>r. AList.update (key r) r) rs (AList.update (key r) r acc)) k = Some v"
    by simp
  from Cons.IH [OF this] show ?case
    by (auto simp: update_conv' split: if_splits)
qed

lemma registry_models:
  "\<forall>m \<in> set CAMERA_MODELS. CAMERA_MODEL_IDS (model_id m) = Some m \<and> isInt32 (model_id m)"
  by (simp add: CAMERA_MODELS_def CAMERA_MODEL_IDS_table isInt32_def)

lemma registry_consistent:
  "CAMERA_MODEL_NAMES_own s = Some m \<Longrightarrow>
     CAMERA_MODEL_IDS (model_id m) = Some m \<and> model_name m = s \<and> isInt32 (model_id m)"
  using map_of_fold_update [of model_name CAMERA_MODELS "[]" s m] registry_models
  by (auto simp: CAMERA_MODEL_NAMES_own_def)

lemma CAMERA_MODEL_IDS_unknown: "k < 0 \<or> 10 < k \<Longrightarrow> CAMERA_MODEL_IDS k = None"
  by (auto simp: CAMERA_MODEL_IDS_table)

lemma CAMERA_MODEL_IDS_Some: "CAMERA_MODEL_IDS k = Some m \<Longrightarrow> 0 \<le> k \<and> k \<le> 10"
  by (simp add: CAMERA_MODEL_IDS_table split: if_splits)

lemma CAMERA_MODEL_NAMES_own_table:
  "CAMERA_MODEL_NAMES_own s =
    (if s = ''SIMPLE_PINHOLE'' then Some \<lparr>model_id = 0, model_name = ''SIMPLE_PINHOLE'', num_params = 3\<rparr>
     else if s = ''PINHOLE'' then Some \<lparr>model_id = 1, model_name = ''PINHOLE'', num_params = 4\<rparr>
     else if s = ''SIMPLE_RADIAL'' then Some \<lparr>model_id = 2, model_name = ''SIMPLE_RADIAL'', num_params = 4\<rparr>
     else if s = ''RADIAL'' then Some \<lparr>model_id = 3, model_name = ''RADIAL'', num_params = 5\<rparr>
     else if s = ''OPENCV'' then Some \<lparr>model_id = 4, model_name = ''OPENCV'', num_params = 8\<rparr>
     else if s = ''OPENCV_FISHEYE'' then Some \<lparr>model_id = 5, model_name = ''OPENCV_FISHEYE'', num_params = 8\<rparr>
     else if s = ''FULL_OPENCV'' then Some \<lparr>model_id = 6, model_name = ''FULL_OPENCV'', num_params = 12\<rparr>
     else if s = ''FOV'' then Some \<lparr>model_id = 7, model_name = ''FOV'', num_params = 5\<rparr>
     else if s = ''SIMPLE_RADIAL_FISHEYE'' then Some \<lparr>model_id = 8, model_name = ''SIMPLE_RADIAL_FISHEYE'', num_params = 4\<rparr>
     else if s = ''RADIAL_FISHEYE'' then Some \<lparr>model_id = 9, model_name = ''RADIAL_FISHEYE'', num_params = 5\<rparr>
     else if s = ''THIN_PRISM_FISHEYE'' then Some \<lparr>model_id = 10, model_name = ''THIN_PRISM_FISHEYE'', num_params = 12\<rparr>
     else None)"
  by (simp add: CAMERA_MODEL_NAMES_own_def CAMERA_MODELS_def)

lemma readParams_encode:
  "bytesAt buffer offset (concat (map encodeFloat64 ps)) \<Longrightarrow>
     readParams buffer (length ps) offset acc = Inr (acc @ ps, offset + 8 * length ps)"
proof (induction ps arbitrary: offset acc)
  case Nil
  then show ?case by simp
next
  case (Cons p ps)
  from Cons.prems have a: "bytesAt buffer offset (encodeFloat64 p)"
    and b: "bytesAt buffer (offset + 8) (concat (map encodeFloat64 ps))"
    by (simp_all add: bytesAt_append)
  show ?case
    by (simp add: getFloat64_encode [OF a] Cons.IH [OF b])
qed

lemma length_encodeCamera:
  "length (encodeCamera c) = 24 + 8 * length (params c)"
  by (simp add: encodeCamera_def length_concat o_def sum_list_triv)

lemma readCamera_encode:
  assumes at: "bytesAt buffer offset (encodeCamera c)" and ok: "encodableCamera c"
  shows "readCamera buffer offset = Inr (c, offset + length (encodeCamera c))"
proof -
  from ok obtain m where m: "CAMERA_MODEL_NAMES_own (model c) = Some m"
    and np: "length (params c) = num_params m"
    by (auto simp: encodableCamera_def split: option.splits)
  from registry_consistent [OF m] have ids: "CAMERA_MODEL_IDS (model_id m) = Some m"
    and nm: "model_name m = model c" and mi: "isInt32 (model_id m)" by simp_all
  from ok have ci: "isInt32 (camera_id c)" and w: "isInt64Number (width c)"
    and h: "isInt64Number (height c)" by (simp_all add: encodableCamera_def)
  from at m have f1: "bytesAt buffer offset (encodeInt32 (camera_id c))"
    and f2: "bytesAt buffer (offset + 4) (encodeInt32 (model_id m))"
    and f3: "bytesAt buffer (offset + 8) (encodeInt64 (width c))"
    and f4: "bytesAt buffer (offset + 16) (encodeInt64 (height c))"
    and f5: "bytesAt buffer (offset + 24) (concat (map encodeFloat64 (params c)))"
    by (simp_all add: encodeCamera_def bytesAt_append add.assoc)
  have g1: "getInt32 buffer offset = Inr (camera_id c)"
    using f1 ci by (rule getInt32_encode)
  have g2: "getInt32 buffer (offset + 4) = Inr (model_id m)"
    using f2 mi by (rule getInt32_encode)
  have g3: "getBigInt64 buffer (offset + 8) = Inr (width c)"
    using f3 w by (intro getBigInt64_encode) (simp_all add: isInt64Number_def)
  have g4: "getBigInt64 buffer (offset + 16) = Inr (height c)"
    using f4 h by (intro getBigInt64_encode) (simp_all add: isInt64Number_def)
  have g5: "readParams buffer (num_params m) (offset + 24) [] =
      Inr (params c, offset + 24 + 8 * length (params c))"
    using readParams_encode [OF f5, of "[]"] np by simp
  from w h have n: "Number (width c) = width c" "Number (height c) = height c"
    by (simp_all add: isInt64Number_def)
  show ?thesis
    by (simp add: readCamera_def g1 g2 g3 g4 g5 ids property_def nm n length_encodeCamera)
qed

lemma camerasLoop_encode:
  "bytesAt buffer offset (concat (map encodeCamera cs)) \<Longrightarrow> list_all encodableCamera cs \<Longrightarrow>
     camerasLoop buffer (length cs) offset acc =
       Inr (fold (\<lambda>c. AList.update (camera_id c) c) cs acc,
            offset + length (concat (map encodeCamera cs)))"
proof (induction cs arbitrary: offset acc)
  case Nil
  then show ?case by simp
next
  case (Cons c cs)
  from Cons.prems have a: "bytesAt buffer offset (encodeCamera c)"
    and b: "bytesAt buffer (offset + length (encodeCamera c)) (concat (map encodeCamera cs))"
    and ok: "encodableCamera c" and oks: "list_all encodableCamera cs"
    by (simp_all add: bytesAt_append)
  show ?case
    by (simp add: readCamera_encode [OF a ok] Cons.IH [OF b oks] add.assoc)
qed

lemma fold_update_distinct:
  "distinct (map key rs) \<Longrightarrow> key ` set rs \<inter> fst ` set acc = {} \<Longrightarrow>
     fold (\<lambda>r. AList.update (key r) r) rs acc = acc @ keyed key rs"
proof (induction rs arbitrary: acc)
  case Nil
  then show ?case by (simp add: keyed_def)
next
  case (Cons r rs)
  from Cons.prems have new: "key r \<notin> fst ` set acc" by auto
  have upd: "AList.update (key r) r acc = acc @ [(key r, r)]"
    using new by (induction acc) auto
  from Cons.prems have "key ` set rs \<inter> fst ` set (acc @ [(key r, r)]) = {}"
    by auto
  with Cons.prems Cons.IH [of "acc @ [(key r, r)]"] show ?case
    by (simp add: upd keyed_def)
qed

lemma distinct_int32_length:
  "distinct xs \<Longrightarrow> list_all isInt32 xs \<Longrightarrow> length xs \<le> 2 ^ 32"
proof -
  assume d: "distinct xs" and r: "list_all isInt32 xs"
  from r have "set xs \<subseteq> {- (2 ^ 31) ..< 2 ^ 31}"
    by (auto simp: list_all_iff isInt32_def)
  then have "card (set xs) \<le> card {- (2 ^ 31) ..< (2 ^ 31 :: int)}"
    by (intro card_mono) simp_all
  with d show ?thesis by (simp add: distinct_card)
qed

lemma name_byte:
  "fromCharCode (word_of_nat (of_char c)) = c"
  "(word_of_nat (of_char c) :: byte) = 0 \<longleftrightarrow> c = CHR 0x00"
proof -
  have u: "unat (word_of_nat (of_char c) :: byte) = of_char c"
    by (simp add: unat_byte_of_nat)
  show "fromCharCode (word_of_nat (of_char c)) = c"
    by (simp add: fromCharCode_def u)
  have "(word_of_nat (of_char c) :: byte) = 0 \<longleftrightarrow> unat (word_of_nat (of_char c) :: byte) = 0"
    by (simp add: unat_eq_0)
  also have "\<dots> \<longleftrightarrow> (of_char c :: nat) = of_char (CHR 0x00)"
    by (simp add: u)
  also have "\<dots> \<longleftrightarrow> c = CHR 0x00"
    by (rule of_char_eq_iff)
  finally show "(word_of_nat (of_char c) :: byte) = 0 \<longleftrightarrow> c = CHR 0x00" .
qed

declare readName.simps [simp del]

lemma readName_encode:
  "bytesAt buffer offset (encodeName s) \<Longrightarrow> CHR 0x00 \<notin> set s \<Longrightarrow>
     readName buffer offset acc = Inr (acc @ s, offset + length s + 1)"
proof (induction s arbitrary: offset acc)
  case Nil
  then have "getUint8 buffer offset = Inr 0"
    by (simp add: encodeName_def getUint8_bytesAt)
  then show ?case by (subst readName.simps) simp
next
  case (Cons c s)
  from Cons.prems have a: "bytesAt buffer offset [word_of_nat (of_char c)]"
    and b: "bytesAt buffer (Suc offset) (encodeName s)"
    using bytesAt_append [of buffer offset "[word_of_nat (of_char c)]" "encodeName s"]
    by (simp_all add: encodeName_def)
  from Cons.prems have nz: "c \<noteq> CHR 0x00" and rest: "CHR 0x00 \<notin> set s" by auto
  show ?case
    by (subst readName.simps)
       (simp add: getUint8_bytesAt [OF a] name_byte nz Cons.IH [OF b rest])
qed

lemma length_concat_const:
  "\<forall>x \<in> set xs. length (f x) = c \<Longrightarrow> length (concat (map f xs)) = c * length xs"
  by (induction xs) auto

lemma length_encodePoint2D [simp]: "length (encodePoint2D k) = 24"
  by (simp add: encodePoint2D_def split: prod.splits)

lemma length_encodeTrackElement [simp]: "length (encodeTrackElement t) = 8"
  by (simp add: encodeTrackElement_def split: prod.splits)

lemma readPoints2D_encode:
  "length ids = length xs \<Longrightarrow> list_all isInt64Number ids \<Longrightarrow>
   bytesAt buffer offset (concat (map encodePoint2D (zip xs ids))) \<Longrightarrow>
     readPoints2D buffer (length xs) offset accx acci =
       Inr (accx @ xs, acci @ ids, offset + 24 * length xs)"
proof (induction ids xs arbitrary: offset accx acci rule: list_induct2)
  case Nil
  then show ?case by simp
next
  case (Cons i ids x xs)
  obtain x1 x2 where x: "x = (x1, x2)" by (cases x)
  from Cons.prems have e: "bytesAt buffer offset (encodePoint2D (x, i))"
    and d: "bytesAt buffer (offset + 24) (concat (map encodePoint2D (zip xs ids)))"
    by (simp_all add: bytesAt_append)
  from e x have a: "bytesAt buffer offset (encodeFloat64 x1)"
    and b: "bytesAt buffer (offset + 8) (encodeFloat64 x2)"
    and c: "bytesAt buffer (offset + 16) (encodeInt64 i)"
    by (simp_all add: encodePoint2D_def bytesAt_append add.assoc)
  from Cons.prems have i: "isInt64Number i" and oks: "list_all isInt64Number ids" by simp_all
  have g: "getBigInt64 buffer (offset + 16) = Inr i"
    using c i by (intro getBigInt64_encode) (simp_all add: isInt64Number_def)
  from i have n: "Number i = i" by (simp add: isInt64Number_def)
  show ?case
    by (simp add: getFloat64_encode [OF a] getFloat64_encode [OF b] g n x
        Cons.IH [OF oks d])
qed

lemma readTrack_encode:
  "length js = length is \<Longrightarrow> list_all isInt32 is \<Longrightarrow> list_all isInt32 js \<Longrightarrow>
   bytesAt buffer offset (concat (map encodeTrackElement (zip is js))) \<Longrightarrow>
     readTrack buffer (length is) offset acci accj =
       Inr (acci @ is, accj @ js, offset + 8 * length is)"
proof (induction js "is" arbitrary: offset acci accj rule: list_induct2)
  case Nil
  then show ?case by simp
next
  case (Cons j js i "is")
  from Cons.prems have e: "bytesAt buffer offset (encodeTrackElement (i, j))"
    and d: "bytesAt buffer (offset + 8) (concat (map encodeTrackElement (zip is js)))"
    by (simp_all add: bytesAt_append)
  from e have a: "bytesAt buffer offset (encodeInt32 i)"
    and b: "bytesAt buffer (offset + 4) (encodeInt32 j)"
    by (simp_all add: encodeTrackElement_def bytesAt_append)
  from Cons.prems have i: "isInt32 i" and j: "isInt32 j"
    and oki: "list_all isInt32 is" and okj: "list_all isInt32 js" by simp_all
  show ?case
    by (simp add: getInt32_encode [OF a i] getInt32_encode [OF b j] Cons.IH [OF oki okj d])
qed

lemma length_encodeImage:
  "length (point3D_ids i) = length (xys i) \<Longrightarrow>
     length (encodeImage i) = 64 + (length (name i) + 1) + 8 + 24 * length (xys i)"
  using length_concat_const [of "zip (xys i) (point3D_ids i)" encodePoint2D 24]
  by (simp add: encodeImage_def split: prod.splits)

lemma length_encodePoint3D:
  "length (point2DIdxs p) = length (imageIds p) \<Longrightarrow>
     length (encodePoint3D p) = 51 + 8 * length (imageIds p)"
  using length_concat_const [of "zip (imageIds p) (point2DIdxs p)" encodeTrackElement 8]
  by (simp add: encodePoint3D_def split: prod.splits)

lemma bytesAt_Cons:
  "bytesAt buffer offset (b # bs) \<longleftrightarrow>
     getUint8 buffer offset = Inr b \<and> bytesAt buffer (offset + 1) bs"
proof (cases "offset < length buffer")
  case True
  then have "drop offset buffer = buffer ! offset # drop (Suc offset) buffer"
    by (simp add: Cons_nth_drop_Suc)
  with True show ?thesis
    by (auto simp: bytesAt_def getUint8_def)
next
  case False
  then show ?thesis by (simp add: bytesAt_def getUint8_def)
qed


lemma readImage_encode:
  assumes at: "bytesAt buffer offset (encodeImage i)" and ok: "encodableImage i"
  shows "readImage buffer offset = Inr (i, offset + length (encodeImage i))"
proof -
  obtain q0 q1 q2 q3 where q: "qvec i = (q0, q1, q2, q3)" by (cases "qvec i")
  obtain t0 t1 t2 where t: "tvec i = (t0, t1, t2)" by (cases "tvec i")
  from ok have i1: "isInt32 (image_id i)" and i2: "isInt32 (image_camera_id i)"
    and nz: "CHR 0x00 \<notin> set (name i)"
    and len: "length (point3D_ids i) = length (xys i)" and n64: "length (xys i) < 2 ^ 64"
    and ids: "list_all isInt64Number (point3D_ids i)"
    by (simp_all add: encodableImage_def)
  from at q t have f0: "bytesAt buffer offset (encodeInt32 (image_id i))"
    and f1: "bytesAt buffer (offset + 4) (encodeFloat64 q0)"
    and f2: "bytesAt buffer (offset + 12) (encodeFloat64 q1)"
    and f3: "bytesAt buffer (offset + 20) (encodeFloat64 q2)"
    and f4: "bytesAt buffer (offset + 28) (encodeFloat64 q3)"
    and f5: "bytesAt buffer (offset + 36) (encodeFloat64 t0)"
    and f6: "bytesAt buffer (offset + 44) (encodeFloat64 t1)"
    and f7: "bytesAt buffer (offset + 52) (encodeFloat64 t2)"
    and f8: "bytesAt buffer (offset + 60) (encodeInt32 (image_camera_id i))"
    and f9: "bytesAt buffer (offset + 64) (encodeName (name i))"
    by (simp_all add: encodeImage_def bytesAt_append add.assoc)
  define off1 where "off1 = offset + 64 + length (name i) + 1"
  define off2 where "off2 = off1 + 8 + 24 * length (xys i)"
  from at q t have f10: "bytesAt buffer off1 (encodeUint64 (length (xys i)))"
    and f11: "bytesAt buffer (off1 + 8) (concat (map encodePoint2D (zip (xys i) (point3D_ids i))))"
    by (simp_all add: encodeImage_def bytesAt_append add.assoc off1_def)
  have g9: "readName buffer (offset + 64) [] = Inr (name i, off1)"
    using readName_encode [OF f9 nz, of "[]"] by (simp add: off1_def)
  have g10: "getBigUint64 buffer off1 = Inr (length (xys i))"
    using f10 n64 by (rule getBigUint64_encode)
  have g11: "readPoints2D buffer (length (xys i)) (off1 + 8) [] [] =
      Inr (xys i, point3D_ids i, off2)"
    using readPoints2D_encode [OF len ids f11, of "[]" "[]"] by (simp add: off2_def)
  have e: "off2 = offset + length (encodeImage i)"
    by (simp add: off2_def off1_def length_encodeImage [OF len])
  have "readImage buffer offset = Inr (i, off2)"
    unfolding readImage_def
    by (simp add: getInt32_encode [OF f0 i1] getFloat64_encode [OF f1] getFloat64_encode [OF f2]
        getFloat64_encode [OF f3] getFloat64_encode [OF f4] getFloat64_encode [OF f5]
        getFloat64_encode [OF f6] getFloat64_encode [OF f7] getInt32_encode [OF f8 i2]
        g9 g10 g11 q [symmetric] t [symmetric])
  then show ?thesis by (simp only: e)
qed

lemma imagesLoop_encode:
  "bytesAt buffer offset (concat (map encodeImage rs)) \<Longrightarrow> list_all encodableImage rs \<Longrightarrow>
     imagesLoop buffer (length rs) offset acc =
       Inr (fold (\<lambda>i. AList.update (image_id i) i) rs acc,
            offset + length (concat (map encodeImage rs)))"
proof (induction rs arbitrary: offset acc)
  case Nil
  then show ?case by simp
next
  case (Cons r rs)
  from Cons.prems have a: "bytesAt buffer offset (encodeImage r)"
    and b: "bytesAt buffer (offset + length (encodeImage r)) (concat (map encodeImage rs))"
    and ok: "encodableImage r" and oks: "list_all encodableImage rs"
    by (simp_all add: bytesAt_append)
  show ?case
    by (simp add: readImage_encode [OF a ok] Cons.IH [OF b oks] add.assoc)
qed

lemma readPoint3D_encode:
  assumes at: "bytesAt buffer offset (encodePoint3D p)" and ok: "encodablePoint3D p"
  shows "readPoint3D buffer offset = Inr (p, offset + length (encodePoint3D p))"
proof -
  obtain x y z where xyz: "xyz p = (x, y, z)" by (cases "xyz p")
  obtain r g b where rgb: "rgb p = (r, g, b)" by (cases "rgb p")
  from ok have id: "isUint64Number (point_id p)"
    and len: "length (point2DIdxs p) = length (imageIds p)"
    and n64: "length (imageIds p) < 2 ^ 64"
    and oki: "list_all isInt32 (imageIds p)" and okj: "list_all isInt32 (point2DIdxs p)"
    by (simp_all add: encodablePoint3D_def)
  from at xyz rgb have f0: "bytesAt buffer offset (encodeUint64 (nat (point_id p)))"
    and f1: "bytesAt buffer (offset + 8) (encodeFloat64 x)"
    and f2: "bytesAt buffer (offset + 16) (encodeFloat64 y)"
    and f3: "bytesAt buffer (offset + 24) (encodeFloat64 z)"
    and f4: "bytesAt buffer (offset + 32)
        (r # g # b # encodeFloat64 (error p) @ encodeUint64 (length (imageIds p)) @
          concat (map encodeTrackElement (zip (imageIds p) (point2DIdxs p))))"
    by (simp_all add: encodePoint3D_def bytesAt_append add.assoc)
  from f4 have c1: "getUint8 buffer (offset + 32) = Inr r"
    and c2: "getUint8 buffer (offset + 33) = Inr g"
    and c3: "getUint8 buffer (offset + 34) = Inr b"
    and f7: "bytesAt buffer (offset + 35) (encodeFloat64 (error p))"
    and f8: "bytesAt buffer (offset + 43) (encodeUint64 (length (imageIds p)))"
    and f9: "bytesAt buffer (offset + 51)
               (concat (map encodeTrackElement (zip (imageIds p) (point2DIdxs p))))"
    by (simp_all add: bytesAt_Cons bytesAt_append ac_simps)
  from id have "nat (point_id p) < 2 ^ 64"
    by (simp add: isUint64Number_def nat_less_iff)
  with f0 have g0: "getBigUint64 buffer offset = Inr (nat (point_id p))"
    by (rule getBigUint64_encode)
  from id have n: "0 \<le> point_id p" "Number (point_id p) = point_id p"
    by (simp_all add: isUint64Number_def)
  have g8: "getBigUint64 buffer (offset + 43) = Inr (length (imageIds p))"
    using f8 n64 by (rule getBigUint64_encode)
  define off2 where "off2 = offset + 51 + 8 * length (imageIds p)"
  have g9: "readTrack buffer (length (imageIds p)) (offset + 51) [] [] =
      Inr (imageIds p, point2DIdxs p, off2)"
    using readTrack_encode [OF len oki okj f9, of "[]" "[]"] by (simp add: off2_def)
  have e: "off2 = offset + length (encodePoint3D p)"
    by (simp add: off2_def length_encodePoint3D [OF len])
  have "readPoint3D buffer offset = Inr (p, off2)"
    unfolding readPoint3D_def
    by (simp add: g0 getFloat64_encode [OF f1] getFloat64_encode [OF f2]
        getFloat64_encode [OF f3] c1 c2 c3 getFloat64_encode [OF f7] g8 g9 n
        xyz [symmetric] rgb [symmetric])
  then show ?thesis by (simp only: e)
qed

lemma pointsLoop_encode:
  "bytesAt buffer offset (concat (map encodePoint3D rs)) \<Longrightarrow> list_all encodablePoint3D rs \<Longrightarrow>
     pointsLoop buffer (length rs) offset acc =
       Inr (fold (\<lambda>p. AList.update (point_id p) p) rs acc,
            offset + length (concat (map encodePoint3D rs)))"
proof (induction rs arbitrary: offset acc)
  case Nil
  then show ?case by simp
next
  case (Cons r rs)
  from Cons.prems have a: "bytesAt buffer offset (encodePoint3D r)"
    and b: "bytesAt buffer (offset + length (encodePoint3D r)) (concat (map encodePoint3D rs))"
    and ok: "encodablePoint3D r" and oks: "list_all encodablePoint3D rs"
    by (simp_all add: bytesAt_append)
  show ?case
    by (simp add: readPoint3D_encode [OF a ok] Cons.IH [OF b oks] add.assoc)
qed

lemma getBytes_take:
  "getBytes (take n buffer) offset k =
     (if offset + k \<le> n then getBytes buffer offset k else Inl RangeError)"
proof (cases "offset + k \<le> n")
  case True
  then have "take k (drop offset (take n buffer)) = take k (drop offset buffer)"
    by (simp add: drop_take min_def)
  with True show ?thesis by (auto simp: getBytes_def)
next
  case False
  then show ?thesis by (simp add: getBytes_def)
qed

lemma getUint8_take:
  "getUint8 (take n buffer) offset = (if offset < n then getUint8 buffer offset else Inl RangeError)"
  by (simp add: getUint8_def)

lemma getters_take:
  "getInt32 (take n buffer) offset =
     (if offset + 4 \<le> n then getInt32 buffer offset else Inl RangeError)"
  "getBigUint64 (take n buffer) offset =
     (if offset + 8 \<le> n then getBigUint64 buffer offset else Inl RangeError)"
  "getBigInt64 (take n buffer) offset =
     (if offset + 8 \<le> n then getBigInt64 buffer offset else Inl RangeError)"
  "getFloat64 (take n buffer) offset =
     (if offset + 8 \<le> n then getFloat64 buffer offset else Inl RangeError)"
  by (simp_all add: getInt32_def getBigUint64_def getBigInt64_def getFloat64_def getBytes_take)

lemma andThen_Inr: "andThen m f = Inr y \<longleftrightarrow> (\<exists>x. m = Inr x \<and> f x = Inr y)"
  by (cases m) simp_all

lemma readParams_offset:
  "readParams buffer k offset acc = Inr (ps, off') \<Longrightarrow> off' = offset + 8 * k"
proof (induction k arbitrary: offset acc)
  case 0
  then show ?case by simp
next
  case (Suc k)
  from Suc.prems obtain p where "readParams buffer k (offset + 8) (acc @ [p]) = Inr (ps, off')"
    by (auto split: sum.splits)
  from Suc.IH [OF this] show ?case by simp
qed

lemma readParams_take:
  "readParams buffer k offset acc = Inr (ps, off') \<Longrightarrow> offset \<le> n \<Longrightarrow>
     readParams (take n buffer) k offset acc =
       (if off' \<le> n then Inr (ps, off') else Inl RangeError)"
proof (induction k arbitrary: offset acc)
  case 0
  then show ?case by simp
next
  case (Suc k)
  from Suc.prems obtain p where p: "getFloat64 buffer offset = Inr p"
    and r: "readParams buffer k (offset + 8) (acc @ [p]) = Inr (ps, off')"
    by (auto split: sum.splits)
  from readParams_offset [OF r] have o: "offset + 8 \<le> off'" by simp
  show ?case
  proof (cases "offset + 8 \<le> n")
    case True
    with Suc.IH [OF r True] p show ?thesis by (simp add: getters_take)
  next
    case False
    with o show ?thesis by (simp add: getters_take)
  qed
qed

lemma readCamera_Inr:
  assumes "readCamera buffer offset = Inr (c, off')"
  obtains cameraId modelId w h m ps where
    "getInt32 buffer offset = Inr cameraId"
    "getInt32 buffer (offset + 4) = Inr modelId"
    "getBigInt64 buffer (offset + 8) = Inr w"
    "getBigInt64 buffer (offset + 16) = Inr h"
    "CAMERA_MODEL_IDS modelId = Some m"
    "readParams buffer (num_params m) (offset + 24) [] = Inr (ps, off')"
    "c = \<lparr>camera_id = cameraId, model = model_name m, width = Number w,
           height = Number h, params = ps\<rparr>"
  using assms unfolding readCamera_def andThen_Inr property_def
  by (auto split: option.splits)

lemma readCamera_take:
  assumes r: "readCamera buffer offset = Inr (c, off')"
  shows "readCamera (take n buffer) offset =
           (if off' \<le> n then Inr (c, off') else Inl RangeError)"
    and "offset + 24 \<le> off'"
proof -
  from r obtain cameraId modelId w h m ps where
    g: "getInt32 buffer offset = Inr cameraId"
       "getInt32 buffer (offset + 4) = Inr modelId"
       "getBigInt64 buffer (offset + 8) = Inr w"
       "getBigInt64 buffer (offset + 16) = Inr h"
       "CAMERA_MODEL_IDS modelId = Some m"
    and p: "readParams buffer (num_params m) (offset + 24) [] = Inr (ps, off')"
    and c: "c = \<lparr>camera_id = cameraId, model = model_name m, width = Number w,
           height = Number h, params = ps\<rparr>"
    by (rule readCamera_Inr)
  from readParams_offset [OF p] show o: "offset + 24 \<le> off'" by simp
  show "readCamera (take n buffer) offset =
           (if off' \<le> n then Inr (c, off') else Inl RangeError)"
  proof (cases "offset + 24 \<le> n")
    case True
    with readParams_take [OF p True] g c show ?thesis
      by (simp add: readCamera_def getters_take property_def)
  next
    case False
    with o g show ?thesis
      by (simp add: readCamera_def getters_take)
  qed
qed

lemma camerasLoop_offset:
  "camerasLoop buffer k offset acc = Inr (cams, off') \<Longrightarrow> offset \<le> off'"
proof (induction k arbitrary: offset acc)
  case 0
  then show ?case by simp
next
  case (Suc k)
  from Suc.prems obtain c off1 where r: "readCamera buffer offset = Inr (c, off1)"
    and l: "camerasLoop buffer k off1 (AList.update (camera_id c) c acc) = Inr (cams, off')"
    by (auto split: sum.splits)
  from readCamera_take(2) [OF r] Suc.IH [OF l] show ?case by simp
qed

lemma camerasLoop_take:
  "camerasLoop buffer k offset acc = Inr (cams, off') \<Longrightarrow> offset \<le> n \<Longrightarrow>
     camerasLoop (take n buffer) k offset acc =
       (if off' \<le> n then Inr (cams, off') else Inl RangeError)"
proof (induction k arbitrary: offset acc)
  case 0
  then show ?case by simp
next
  case (Suc k)
  from Suc.prems obtain c off1 where r: "readCamera buffer offset = Inr (c, off1)"
    and l: "camerasLoop buffer k off1 (AList.update (camera_id c) c acc) = Inr (cams, off')"
    by (auto split: sum.splits)
  from camerasLoop_offset [OF l] have o: "off1 \<le> off'" .
  show ?case
  proof (cases "off1 \<le> n")
    case True
    with Suc.IH [OF l True] show ?thesis
      by (simp add: readCamera_take(1) [OF r])
  next
    case False
    with o show ?thesis
      by (simp add: readCamera_take(1) [OF r])
  qed
qed

lemma readName_take:
  "readName buffer offset acc = Inr (s, off') \<Longrightarrow>
     offset < off' \<and>
     readName (take n buffer) offset acc =
       (if off' \<le> n then Inr (s, off') else Inl RangeError)"
proof (induction buffer offset acc rule: readName.induct)
  case (1 buffer offset acc)
  from "1.prems" obtain ch where ch: "getUint8 buffer offset = Inr ch"
    by (subst (asm) readName.simps) (auto split: sum.splits)
  show ?case
  proof (cases "ch = 0")
    case True
    with "1.prems" ch have e: "s = acc" "off' = offset + 1"
      by (subst (asm) readName.simps, simp)+
    show ?thesis
      using e ch True by (subst readName.simps) (auto simp: getUint8_take)
  next
    case False
    with "1.prems" ch
    have r: "readName buffer (offset + 1) (acc @ [fromCharCode ch]) = Inr (s, off')"
      by (subst (asm) readName.simps) simp
    from "1.IH" [OF ch False r] have o: "offset + 1 < off'"
      and t: "readName (take n buffer) (offset + 1) (acc @ [fromCharCode ch]) =
               (if off' \<le> n then Inr (s, off') else Inl RangeError)"
      by simp_all
    show ?thesis
      using o t ch False by (subst readName.simps) (auto simp: getUint8_take)
  qed
qed

lemma readPoints2D_offset:
  "readPoints2D buffer k offset xs ids = Inr (xs', ids', off') \<Longrightarrow> off' = offset + 24 * k"
proof (induction k arbitrary: offset xs ids)
  case 0
  then show ?case by simp
next
  case (Suc k)
  from Suc.prems obtain x y i where
    "readPoints2D buffer k (offset + 24) (xs @ [(x, y)]) (ids @ [Number i]) = Inr (xs', ids', off')"
    by (auto split: sum.splits)
  from Suc.IH [OF this] show ?case by simp
qed

lemma readPoints2D_take:
  "readPoints2D buffer k offset xs ids = Inr (xs', ids', off') \<Longrightarrow> offset \<le> n \<Longrightarrow>
     readPoints2D (take n buffer) k offset xs ids =
       (if off' \<le> n then Inr (xs', ids', off') else Inl RangeError)"
proof (induction k arbitrary: offset xs ids)
  case 0
  then show ?case by simp
next
  case (Suc k)
  from Suc.prems obtain x y i where g: "getFloat64 buffer offset = Inr x"
    "getFloat64 buffer (offset + 8) = Inr y" "getBigInt64 buffer (offset + 16) = Inr i"
    and r: "readPoints2D buffer k (offset + 24) (xs @ [(x, y)]) (ids @ [Number i])
              = Inr (xs', ids', off')"
    by (auto split: sum.splits)
  from readPoints2D_offset [OF r] have o: "offset + 24 \<le> off'" by simp
  show ?case
  proof (cases "offset + 24 \<le> n")
    case True
    with Suc.IH [OF r True] g show ?thesis by (simp add: getters_take)
  next
    case False
    with o g show ?thesis by (simp add: getters_take)
  qed
qed

lemma readTrack_offset:
  "readTrack buffer k offset is js = Inr (is', js', off') \<Longrightarrow> off' = offset + 8 * k"
proof (induction k arbitrary: offset "is" js)
  case 0
  then show ?case by simp
next
  case (Suc k)
  from Suc.prems obtain i j where
    "readTrack buffer k (offset + 8) (is @ [i]) (js @ [j]) = Inr (is', js', off')"
    by (auto split: sum.splits)
  from Suc.IH [OF this] show ?case by simp
qed

lemma readTrack_take:
  "readTrack buffer k offset is js = Inr (is', js', off') \<Longrightarrow> offset \<le> n \<Longrightarrow>
     readTrack (take n buffer) k offset is js =
       (if off' \<le> n then Inr (is', js', off') else Inl RangeError)"
proof (induction k arbitrary: offset "is" js)
  case 0
  then show ?case by simp
next
  case (Suc k)
  from Suc.prems obtain i j where g: "getInt32 buffer offset = Inr i"
    "getInt32 buffer (offset + 4) = Inr j"
    and r: "readTrack buffer k (offset + 8) (is @ [i]) (js @ [j]) = Inr (is', js', off')"
    by (auto split: sum.splits)
  from readTrack_offset [OF r] have o: "offset + 8 \<le> off'" by simp
  show ?case
  proof (cases "offset + 8 \<le> n")
    case True
    with Suc.IH [OF r True] g show ?thesis by (simp add: getters_take)
  next
    case False
    with o g show ?thesis by (simp add: getters_take)
  qed
qed

lemma readImage_Inr:
  assumes "readImage buffer offset = Inr (i, off')"
  obtains imageId q0 q1 q2 q3 t0 t1 t2 cameraId nm off1 numPoints2D xs ids where
    "getInt32 buffer offset = Inr imageId"
    "getFloat64 buffer (offset + 4) = Inr q0"
    "getFloat64 buffer (offset + 12) = Inr q1"
    "getFloat64 buffer (offset + 20) = Inr q2"
    "getFloat64 buffer (offset + 28) = Inr q3"
    "getFloat64 buffer (offset + 36) = Inr t0"
    "getFloat64 buffer (offset + 44) = Inr t1"
    "getFloat64 buffer (offset + 52) = Inr t2"
    "getInt32 buffer (offset + 60) = Inr cameraId"
    "readName buffer (offset + 64) [] = Inr (nm, off1)"
    "getBigUint64 buffer off1 = Inr numPoints2D"
    "readPoints2D buffer numPoints2D (off1 + 8) [] [] = Inr (xs, ids, off')"
    "i = \<lparr>image_camera_id = cameraId, image_id = imageId, name = nm,
           point3D_ids = ids, qvec = (q0, q1, q2, q3), tvec = (t0, t1, t2), xys = xs\<rparr>"
  using assms by (auto simp: readImage_def andThen_Inr)

lemma readImage_take:
  assumes r: "readImage buffer offset = Inr (i, off')"
  shows "readImage (take n buffer) offset =
           (if off' \<le> n then Inr (i, off') else Inl RangeError)"
    and "offset + 73 \<le> off'"
proof -
  from r obtain imageId q0 q1 q2 q3 t0 t1 t2 cameraId nm off1 numPoints2D xs ids where
    g: "getInt32 buffer offset = Inr imageId"
       "getFloat64 buffer (offset + 4) = Inr q0"
       "getFloat64 buffer (offset + 12) = Inr q1"
       "getFloat64 buffer (offset + 20) = Inr q2"
       "getFloat64 buffer (offset + 28) = Inr q3"
       "getFloat64 buffer (offset + 36) = Inr t0"
       "getFloat64 buffer (offset + 44) = Inr t1"
       "getFloat64 buffer (offset + 52) = Inr t2"
       "getInt32 buffer (offset + 60) = Inr cameraId"
    and nm: "readName buffer (offset + 64) [] = Inr (nm, off1)"
    and np: "getBigUint64 buffer off1 = Inr numPoints2D"
    and ps: "readPoints2D buffer numPoints2D (off1 + 8) [] [] = Inr (xs, ids, off')"
    and i: "i = \<lparr>image_camera_id = cameraId, image_id = imageId, name = nm,
           point3D_ids = ids, qvec = (q0, q1, q2, q3), tvec = (t0, t1, t2), xys = xs\<rparr>"
    by (rule readImage_Inr)
  from readName_take [OF nm, of n] have o1: "offset + 64 < off1"
    and nt: "readName (take n buffer) (offset + 64) [] =
               (if off1 \<le> n then Inr (nm, off1) else Inl RangeError)"
    by simp_all
  from readPoints2D_offset [OF ps] have o2: "off1 + 8 \<le> off'" by simp
  from o1 o2 show "offset + 73 \<le> off'" by simp
  show "readImage (take n buffer) offset =
           (if off' \<le> n then Inr (i, off') else Inl RangeError)"
  proof (cases "off1 + 8 \<le> n")
    case True
    with o1 have h: "offset + 64 \<le> n" "off1 \<le> n" by simp_all
    from readPoints2D_take [OF ps True] h True g nt np i show ?thesis
      by (simp add: readImage_def getters_take)
  next
    case False
    with o2 have big: "\<not> off' \<le> n" by simp
    have "readImage (take n buffer) offset = Inl RangeError"
    proof (cases "offset + 64 \<le> n")
      case True
      with g nt np False show ?thesis
        by (simp add: readImage_def getters_take)
    next
      case False
      with g show ?thesis
        by (simp add: readImage_def getters_take)
    qed
    with big show ?thesis by simp
  qed
qed

lemma imagesLoop_offset:
  "imagesLoop buffer k offset acc = Inr (images, off') \<Longrightarrow> offset \<le> off'"
proof (induction k arbitrary: offset acc)
  case 0
  then show ?case by simp
next
  case (Suc k)
  from Suc.prems obtain i off1 where r: "readImage buffer offset = Inr (i, off1)"
    and l: "imagesLoop buffer k off1 (AList.update (image_id i) i acc) = Inr (images, off')"
    by (auto split: sum.splits)
  from readImage_take(2) [OF r] Suc.IH [OF l] show ?case by simp
qed

lemma imagesLoop_take:
  "imagesLoop buffer k offset acc = Inr (images, off') \<Longrightarrow> offset \<le> n \<Longrightarrow>
     imagesLoop (take n buffer) k offset acc =
       (if off' \<le> n then Inr (images, off') else Inl RangeError)"
proof (induction k arbitrary: offset acc)
  case 0
  then show ?case by simp
next
  case (Suc k)
  from Suc.prems obtain i off1 where r: "readImage buffer offset = Inr (i, off1)"
    and l: "imagesLoop buffer k off1 (AList.update (image_id i) i acc) = Inr (images, off')"
    by (auto split: sum.splits)
  from imagesLoop_offset [OF l] have o: "off1 \<le> off'" .
  show ?case
  proof (cases "off1 \<le> n")
    case True
    with Suc.IH [OF l True] show ?thesis
      by (simp add: readImage_take(1) [OF r])
  next
    case False
    with o show ?thesis
      by (simp add: readImage_take(1) [OF r])
  qed
qed

lemma readPoint3D_Inr:
  assumes "readPoint3D buffer offset = Inr (p, off')"
  obtains point3DId x y z r g b err trackLength "is" js where
    "getBigUint64 buffer offset = Inr point3DId"
    "getFloat64 buffer (offset + 8) = Inr x"
    "getFloat64 buffer (offset + 16) = Inr y"
    "getFloat64 buffer (offset + 24) = Inr z"
    "getUint8 buffer (offset + 32) = Inr r"
    "getUint8 buffer (offset + 33) = Inr g"
    "getUint8 buffer (offset + 34) = Inr b"
    "getFloat64 buffer (offset + 35) = Inr err"
    "getBigUint64 buffer (offset + 43) = Inr trackLength"
    "readTrack buffer trackLength (offset + 51) [] [] = Inr (is, js, off')"
    "p = \<lparr>point_id = Number (int point3DId), xyz = (x, y, z), rgb = (r, g, b),
           error = err, imageIds = is, point2DIdxs = js\<rparr>"
  using assms by (auto simp: readPoint3D_def andThen_Inr)

lemma readPoint3D_take:
  assumes r: "readPoint3D buffer offset = Inr (p, off')"
  shows "readPoint3D (take n buffer) offset =
           (if off' \<le> n then Inr (p, off') else Inl RangeError)"
    and "offset + 51 \<le> off'"
proof -
  from r obtain point3DId x y z r g b err trackLength "is" js where
    g: "getBigUint64 buffer offset = Inr point3DId"
       "getFloat64 buffer (offset + 8) = Inr x"
       "getFloat64 buffer (offset + 16) = Inr y"
       "getFloat64 buffer (offset + 24) = Inr z"
       "getUint8 buffer (offset + 32) = Inr r"
       "getUint8 buffer (offset + 33) = Inr g"
       "getUint8 buffer (offset + 34) = Inr b"
       "getFloat64 buffer (offset + 35) = Inr err"
       "getBigUint64 buffer (offset + 43) = Inr trackLength"
    and t: "readTrack buffer trackLength (offset + 51) [] [] = Inr (is, js, off')"
    and p: "p = \<lparr>point_id = Number (int point3DId), xyz = (x, y, z), rgb = (r, g, b),
           error = err, imageIds = is, point2DIdxs = js\<rparr>"
    by (rule readPoint3D_Inr)
  from readTrack_offset [OF t] show o: "offset + 51 \<le> off'" by simp
  show "readPoint3D (take n buffer) offset =
           (if off' \<le> n then Inr (p, off') else Inl RangeError)"
  proof (cases "offset + 51 \<le> n")
    case True
    with readTrack_take [OF t True] g p show ?thesis
      by (simp add: readPoint3D_def getters_take getUint8_take)
  next
    case False
    with o g show ?thesis
      by (simp add: readPoint3D_def getters_take getUint8_take)
  qed
qed

lemma pointsLoop_offset:
  "pointsLoop buffer k offset acc = Inr (points3D, off') \<Longrightarrow> offset \<le> off'"
proof (induction k arbitrary: offset acc)
  case 0
  then show ?case by simp
next
  case (Suc k)
  from Suc.prems obtain p off1 where r: "readPoint3D buffer offset = Inr (p, off1)"
    and l: "pointsLoop buffer k off1 (AList.update (point_id p) p acc) = Inr (points3D, off')"
    by (auto split: sum.splits)
  from readPoint3D_take(2) [OF r] Suc.IH [OF l] show ?case by simp
qed

lemma pointsLoop_take:
  "pointsLoop buffer k offset acc = Inr (points3D, off') \<Longrightarrow> offset \<le> n \<Longrightarrow>
     pointsLoop (take n buffer) k offset acc =
       (if off' \<le> n then Inr (points3D, off') else Inl RangeError)"
proof (induction k arbitrary: offset acc)
  case 0
  then show ?case by simp
next
  case (Suc k)
  from Suc.prems obtain p off1 where r: "readPoint3D buffer offset = Inr (p, off1)"
    and l: "pointsLoop buffer k off1 (AList.update (point_id p) p acc) = Inr (points3D, off')"
    by (auto split: sum.splits)
  from pointsLoop_offset [OF l] have o: "off1 \<le> off'" .
  show ?case
  proof (cases "off1 \<le> n")
    case True
    with Suc.IH [OF l True] show ?thesis
      by (simp add: readPoint3D_take(1) [OF r])
  next
    case False
    with o show ?thesis
      by (simp add: readPoint3D_take(1) [OF r])
  qed
qed

lemma le_nat_bound: "le_nat bs < 256 ^ length bs"
proof (induction bs)
  case Nil
  show ?case by simp
next
  case (Cons b bs)
  have "unat b < 2 ^ LENGTH(8)" by (rule unsigned_less)
  then have "unat b < 256" by simp
  with Cons show ?case by simp
qed

lemma getInt32_range: "getInt32 buffer offset = Inr v \<Longrightarrow> isInt32 v"
proof -
  assume "getInt32 buffer offset = Inr v"
  then obtain bs where bs: "getBytes buffer offset 4 = Inr bs" and v: "v = toSigned 32 (le_nat bs)"
    by (auto simp: getInt32_def andThen_Inr)
  from bs have "length bs = 4" by (auto simp: getBytes_def split: if_splits)
  with le_nat_bound [of bs] have "le_nat bs < 2 ^ 32" by simp
  then show ?thesis by (simp add: v toSigned_def isInt32_def)
qed

lemma getters_in_range:
  "offset + 4 \<le> length buffer \<Longrightarrow> \<exists>v. getInt32 buffer offset = Inr v"
  "offset + 8 \<le> length buffer \<Longrightarrow> \<exists>v. getBigInt64 buffer offset = Inr v"
  "offset + 8 \<le> length buffer \<Longrightarrow> \<exists>v. getBigUint64 buffer offset = Inr v"
  "offset + 8 \<le> length buffer \<Longrightarrow> \<exists>v. getFloat64 buffer offset = Inr v"
  by (simp_all add: getInt32_def getBigInt64_def getBigUint64_def getFloat64_def getBytes_def)

lemma getters_out_of_range:
  "getUint8 buffer offset = Inl e \<longleftrightarrow> e = RangeError \<and> length buffer < offset + 1"
  "getInt32 buffer offset = Inl e \<longleftrightarrow> e = RangeError \<and> length buffer < offset + 4"
  "getBigInt64 buffer offset = Inl e \<longleftrightarrow> e = RangeError \<and> length buffer < offset + 8"
  "getBigUint64 buffer offset = Inl e \<longleftrightarrow> e = RangeError \<and> length buffer < offset + 8"
  "getFloat64 buffer offset = Inl e \<longleftrightarrow> e = RangeError \<and> length buffer < offset + 8"
  by (auto simp: getUint8_def getInt32_def getBigInt64_def getBigUint64_def getFloat64_def
      getBytes_def)

lemma camerasLoop_keys:
  "camerasLoop buffer k offset acc = Inr (cams, off') \<Longrightarrow>
   distinct (map fst acc) \<Longrightarrow> list_all isInt32 (map fst acc) \<Longrightarrow>
     distinct (map fst cams) \<and> list_all isInt32 (map fst cams)"
proof (induction k arbitrary: offset acc)
  case 0
  then show ?case by simp
next
  case (Suc k)
  from Suc.prems obtain c off1 where r: "readCamera buffer offset = Inr (c, off1)"
    and l: "camerasLoop buffer k off1 (AList.update (camera_id c) c acc) = Inr (cams, off')"
    by (auto split: sum.splits)
  from r have "isInt32 (camera_id c)"
    by (elim readCamera_Inr) (simp add: getInt32_range)
  with Suc.prems have "distinct (map fst (AList.update (camera_id c) c acc))"
    and "list_all isInt32 (map fst (AList.update (camera_id c) c acc))"
    by (simp_all add: distinct_update update_keys)
  with Suc.IH [OF l] show ?case by simp
qed

lemma readCamerasBinary_check:
  assumes n: "getBigUint64 buffer 0 = Inr n"
    and l: "camerasLoop buffer n 8 [] = Inr (cams, off)"
  shows "readCamerasBinary buffer =
           (if length cams = n then Inr cams else Inl NumberOfCamerasDoesNotMatch)"
proof -
  from camerasLoop_keys [OF l] have "distinct (map fst cams)" "list_all isInt32 (map fst cams)"
    by simp_all
  then have "length (map fst cams) \<le> 2 ^ 32" by (rule distinct_int32_length)
  then have small: "int (length cams) < 2 ^ 53" by simp
  have "int (length cams) \<noteq> Number (int n) \<longleftrightarrow> length cams \<noteq> n"
  proof (cases "int n < 2 ^ 53")
    case True
    then have "Number (int n) = int n" by (intro Number_small) simp
    then show ?thesis by simp
  next
    case False
    then have "2 ^ 53 \<le> Number (int n)" by (intro Number_large) simp
    with small False show ?thesis by auto
  qed
  then show ?thesis
    by (simp add: readCamerasBinary_def n l)
qed

lemma lastRecord_Cons:
  "lastRecord key k (r # rs) =
     (case lastRecord key k rs of
        Some x \<Rightarrow> Some x
      | None \<Rightarrow> if key r = k then Some r else None)"
  by (simp add: lastRecord_def split: list.splits)

lemma map_of_fold_update_last:
  "map_of (fold (\<lambda>r. AList.update (key r) r) rs acc) k =
     (case lastRecord key k rs of None \<Rightarrow> map_of acc k | Some r \<Rightarrow> Some r)"
proof (induction rs arbitrary: acc)
  case Nil
  show ?case by (simp add: lastRecord_def)
next
  case (Cons r rs)
  show ?case
    by (simp add: Cons.IH lastRecord_Cons update_conv' split: option.splits)
qed

lemma keys_fold_update:
  "distinct (map fst acc) \<Longrightarrow>
     distinct (map fst (fold (\<lambda>r. AList.update (key r) r) rs acc)) \<and>
     fst ` set (fold (\<lambda>r. AList.update (key r) r) rs acc) = fst ` set acc \<union> key ` set rs"
proof (induction rs arbitrary: acc)
  case Nil
  then show ?case by simp
next
  case (Cons r rs)
  from Cons.prems have "distinct (map fst (AList.update (key r) r acc))"
    by (rule distinct_update)
  from Cons.IH [OF this] show ?case
    by (auto simp: dom_update)
qed

lemma length_fold_update:
  "length (fold (\<lambda>r. AList.update (key r) r) rs []) = card (key ` set rs)"
proof -
  let ?al = "fold (\<lambda>r. AList.update (key r) r) rs []"
  from keys_fold_update [of "[]" key rs] have d: "distinct (map fst ?al)"
    and s: "set (map fst ?al) = key ` set rs" by simp_all
  from d have "card (set (map fst ?al)) = length (map fst ?al)" by (rule distinct_card)
  with s show ?thesis by simp
qed



lemma file_layout:
  "bytesAt ((encodeUint64 n @ body) @ extra) 0 (encodeUint64 n)"
  "bytesAt ((encodeUint64 n @ body) @ extra) 8 body"
  using bytesAt_middle [of "[]" "encodeUint64 n" "body @ extra"]
    bytesAt_middle [of "encodeUint64 n" body extra]
  by simp_all

lemma camerasLoop_file:
  assumes "list_all encodableCamera cs"
  shows "camerasLoop (encodeCameras cs @ extra) (length cs) 8 [] =
           Inr (fold (\<lambda>c. AList.update (camera_id c) c) cs [], length (encodeCameras cs))"
  using camerasLoop_encode [OF file_layout(2) assms, of "length cs" extra "[]"]
  by (simp add: encodeCameras_def)

lemma imagesLoop_file:
  assumes "list_all encodableImage rs"
  shows "imagesLoop (encodeImages rs @ extra) (length rs) 8 [] =
           Inr (fold (\<lambda>i. AList.update (image_id i) i) rs [], length (encodeImages rs))"
  using imagesLoop_encode [OF file_layout(2) assms, of "length rs" extra "[]"]
  by (simp add: encodeImages_def)

lemma pointsLoop_file:
  assumes "list_all encodablePoint3D rs"
  shows "pointsLoop (encodePoints3D rs @ extra) (length rs) 8 [] =
           Inr (fold (\<lambda>p. AList.update (point_id p) p) rs [], length (encodePoints3D rs))"
  using pointsLoop_encode [OF file_layout(2) assms, of "length rs" extra "[]"]
  by (simp add: encodePoints3D_def)

lemma file_count:
  "n < 2 ^ 64 \<Longrightarrow> getBigUint64 ((encodeUint64 n @ body) @ extra) 0 = Inr n"
  using file_layout(1) by (rule getBigUint64_encode)

lemma readCamerasBinary_file:
  assumes ok: "list_all encodableCamera cs" and len: "length cs < 2 ^ 64"
  shows "readCamerasBinary (encodeCameras cs @ extra) =
           (if distinct (map camera_id cs)
            then Inr (fold (\<lambda>c. AList.update (camera_id c) c) cs [])
            else Inl NumberOfCamerasDoesNotMatch)"
proof -
  have n: "getBigUint64 (encodeCameras cs @ extra) 0 = Inr (length cs)"
    unfolding encodeCameras_def using len by (rule file_count)
  have "card (camera_id ` set cs) = length cs \<longleftrightarrow> distinct (map camera_id cs)"
    using card_distinct [of "map camera_id cs"] distinct_card [of "map camera_id cs"]
    by auto
  then show ?thesis
    using readCamerasBinary_check [OF n camerasLoop_file [OF ok]]
    by (simp add: length_fold_update)
qed

lemma readImagesBinary_file:
  assumes ok: "list_all encodableImage rs" and len: "length rs < 2 ^ 64"
  shows "readImagesBinary (encodeImages rs @ extra) =
           Inr (fold (\<lambda>i. AList.update (image_id i) i) rs [])"
proof -
  have n: "getBigUint64 (encodeImages rs @ extra) 0 = Inr (length rs)"
    unfolding encodeImages_def using len by (rule file_count)
  show ?thesis
    by (simp add: readImagesBinary_def n imagesLoop_file [OF ok])
qed

lemma readPoints3DBinary_file:
  assumes ok: "list_all encodablePoint3D rs" and len: "length rs < 2 ^ 64"
  shows "readPoints3DBinary (encodePoints3D rs @ extra) =
           Inr (fold (\<lambda>p. AList.update (point_id p) p) rs [])"
proof -
  have n: "getBigUint64 (encodePoints3D rs @ extra) 0 = Inr (length rs)"
    unfolding encodePoints3D_def using len by (rule file_count)
  show ?thesis
    by (simp add: readPoints3DBinary_def n pointsLoop_file [OF ok])
qed

lemma length_file: "8 \<le> length (encodeCameras cs)" "8 \<le> length (encodeImages is)"
  "8 \<le> length (encodePoints3D ps)"
  by (simp_all add: encodeCameras_def encodeImages_def encodePoints3D_def)

lemma readCamerasBinary_truncated:
  assumes ok: "list_all encodableCamera cs" and len: "length cs < 2 ^ 64"
    and n: "n < length (encodeCameras cs)"
  shows "readCamerasBinary (take n (encodeCameras cs)) = Inl RangeError"
proof (cases "8 \<le> n")
  case True
  have c: "getBigUint64 (encodeCameras cs) 0 = Inr (length cs)"
    using file_count [OF len, of "concat (map encodeCamera cs)" "[]"]
    by (simp add: encodeCameras_def)
  from camerasLoop_take [OF camerasLoop_file [OF ok, of "[]", simplified] True] n
  have "camerasLoop (take n (encodeCameras cs)) (length cs) 8 [] = Inl RangeError"
    by simp
  with True c show ?thesis
    by (simp add: readCamerasBinary_def getters_take)
next
  case False
  then show ?thesis
    by (simp add: readCamerasBinary_def getters_take)
qed

lemma readImagesBinary_truncated:
  assumes ok: "list_all encodableImage rs" and len: "length rs < 2 ^ 64"
    and n: "n < length (encodeImages rs)"
  shows "readImagesBinary (take n (encodeImages rs)) = Inl (ErrorReadingImages RangeError)"
proof (cases "8 \<le> n")
  case True
  have c: "getBigUint64 (encodeImages rs) 0 = Inr (length rs)"
    using file_count [OF len, of "concat (map encodeImage rs)" "[]"]
    by (simp add: encodeImages_def)
  from imagesLoop_take [OF imagesLoop_file [OF ok, of "[]", simplified] True] n
  have "imagesLoop (take n (encodeImages rs)) (length rs) 8 [] = Inl RangeError"
    by simp
  with True c show ?thesis
    by (simp add: readImagesBinary_def getters_take)
next
  case False
  then show ?thesis
    by (simp add: readImagesBinary_def getters_take)
qed

lemma readPoints3DBinary_truncated:
  assumes ok: "list_all encodablePoint3D rs" and len: "length rs < 2 ^ 64"
    and n: "n < length (encodePoints3D rs)"
  shows "readPoints3DBinary (take n (encodePoints3D rs)) = Inl (ErrorReadingPoints3D RangeError)"
proof (cases "8 \<le> n")
  case True
  have c: "getBigUint64 (encodePoints3D rs) 0 = Inr (length rs)"
    using file_count [OF len, of "concat (map encodePoint3D rs)" "[]"]
    by (simp add: encodePoints3D_def)
  from pointsLoop_take [OF pointsLoop_file [OF ok, of "[]", simplified] True] n
  have "pointsLoop (take n (encodePoints3D rs)) (length rs) 8 [] = Inl RangeError"
    by simp
  with True c show ?thesis
    by (simp add: readPoints3DBinary_def getters_take)
next
  case False
  then show ?thesis
    by (simp add: readPoints3DBinary_def getters_take)
qed

lemma bitLength_54: "bitLength (2 ^ 53 + 1) = 54"
proof -
  have "bitLength (2 ^ 53 + 1) \<le> 54" by (rule bitLength_le) simp
  moreover have "Suc 53 \<le> bitLength (2 ^ 53 + 1)" by (rule bitLength_ge) simp
  ultimately show ?thesis by simp
qed

lemma Number_odd: "Number (2 ^ 53 + 1) = 2 ^ 53"
proof -
  have "bitLength \<bar>2 ^ 53 + 1\<bar> - 53 = 1" using bitLength_54 by simp
  then show ?thesis by (simp add: Number_def Let_def)
qed

lemma distinct_uint64_length:
  "distinct xs \<Longrightarrow> list_all isUint64Number xs \<Longrightarrow> length xs < 2 ^ 64"
proof -
  assume d: "distinct xs" and r: "list_all isUint64Number xs"
  have "\<not> isUint64Number (2 ^ 53 + 1)"
    using Number_odd by (simp add: isUint64Number_def)
  with r have "set xs \<subseteq> {0 ..< 2 ^ 64} - {2 ^ 53 + 1}"
    by (auto simp: list_all_iff isUint64Number_def)
  then have "card (set xs) \<le> card ({0 ..< (2 ^ 64 :: int)} - {2 ^ 53 + 1})"
    by (intro card_mono) simp_all
  also have "\<dots> < 2 ^ 64" by simp
  finally show ?thesis using d by (simp add: distinct_card)
qed

lemma readName_scan:
  "readName buffer offset acc =
     (if 0 \<in> set (drop offset buffer)
      then Inr (acc @ map fromCharCode (takeWhile (\<lambda>b. b \<noteq> 0) (drop offset buffer)),
                offset + length (takeWhile (\<lambda>b. b \<noteq> 0) (drop offset buffer)) + 1)
      else Inl RangeError)"
proof (induction buffer offset acc rule: readName.induct)
  case (1 buffer offset acc)
  show ?case
  proof (cases "offset < length buffer")
    case False
    then show ?thesis by (subst readName.simps) (simp add: getUint8_def)
  next
    case True
    then have d: "drop offset buffer = buffer ! offset # drop (offset + 1) buffer"
      by (simp add: Cons_nth_drop_Suc)
    from True have g: "getUint8 buffer offset = Inr (buffer ! offset)"
      by (simp add: getUint8_def)
    show ?thesis
    proof (cases "buffer ! offset = 0")
      case True
      with g d show ?thesis by (subst readName.simps) simp
    next
      case False
      from "1.IH" [OF g False] False g d show ?thesis
        by (subst readName.simps) auto
    qed
  qed
qed

lemma set_update_subset: "set (AList.update k v al) \<subseteq> insert (k, v) (set al)"
  by (induction al) auto

lemma readTrack_length:
  "readTrack buffer k offset is js = Inr (is', js', off') \<Longrightarrow>
     length is' = length is + k \<and> length js' = length js + k"
proof (induction k arbitrary: offset "is" js)
  case 0
  then show ?case by simp
next
  case (Suc k)
  from Suc.prems obtain i j where
    "readTrack buffer k (offset + 8) (is @ [i]) (js @ [j]) = Inr (is', js', off')"
    by (auto split: sum.splits)
  from Suc.IH [OF this] show ?case by simp
qed

lemma readPoint3D_track:
  assumes "readPoint3D buffer offset = Inr (p, off')"
  shows "getBigUint64 buffer (offset + 43) = Inr (length (imageIds p))"
    and "length (point2DIdxs p) = length (imageIds p)"
proof -
  from assms obtain trackLength "is" js where
    g: "getBigUint64 buffer (offset + 43) = Inr trackLength"
    and t: "readTrack buffer trackLength (offset + 51) [] [] = Inr (is, js, off')"
    and p: "imageIds p = is" "point2DIdxs p = js"
    by (elim readPoint3D_Inr) simp
  from readTrack_length [OF t] have "length is = trackLength" "length js = trackLength"
    by simp_all
  with g p show "getBigUint64 buffer (offset + 43) = Inr (length (imageIds p))"
    and "length (point2DIdxs p) = length (imageIds p)"
    by simp_all
qed

lemma pointsLoop_records:
  "pointsLoop buffer k offset acc = Inr (points3D, off') \<Longrightarrow>
   (key, p) \<in> set points3D \<Longrightarrow>
     (key, p) \<in> set acc \<or>
     (\<exists>off off1. readPoint3D buffer off = Inr (p, off1) \<and> key = point_id p)"
proof (induction k arbitrary: offset acc)
  case 0
  then show ?case by simp
next
  case (Suc k)
  from Suc.prems obtain q off1 where r: "readPoint3D buffer offset = Inr (q, off1)"
    and l: "pointsLoop buffer k off1 (AList.update (point_id q) q acc) = Inr (points3D, off')"
    by (auto split: sum.splits)
  from Suc.IH [OF l Suc.prems(2)] show ?case
  proof
    assume "(key, p) \<in> set (AList.update (point_id q) q acc)"
    with set_update_subset [of "point_id q" q acc]
    have "(key, p) = (point_id q, q) \<or> (key, p) \<in> set acc" by auto
    with r show ?thesis by auto
  next
    assume "\<exists>off off1. readPoint3D buffer off = Inr (p, off1) \<and> key = point_id p"
    then show ?thesis by simp
  qed
qed


section \<open>The claims\<close>

lemma example_encodable:
  "encodableCamera exampleCamera" "encodableImage exampleImage" "encodablePoint3D examplePoint"
  by (simp_all add: encodableCamera_def exampleCamera_def encodableImage_def exampleImage_def
      encodablePoint3D_def examplePoint_def isInt32_def isInt64Number_def isUint64Number_def
      Number_small CAMERA_MODEL_NAMES_own_table)


lemma keyed_lookup:
  "distinct (map key rs) \<Longrightarrow> r \<in> set rs \<Longrightarrow> map_of (keyed key rs) (key r) = Some r"
proof -
  assume d: "distinct (map key rs)" and r: "r \<in> set rs"
  have "map fst (keyed key rs) = map key rs"
    by (simp add: keyed_def o_def)
  with d have "distinct (map fst (keyed key rs))" by simp
  moreover from r have "(key r, r) \<in> set (keyed key rs)"
    by (simp add: keyed_def)
  ultimately show ?thesis by simp
qed

lemma keyed_keys: "fst ` set (keyed key rs) = key ` set rs"
  by (auto simp: keyed_def image_iff)

text \<open>
  Claim C1 (round trip). Records that the layouts can hold and that have pairwise distinct
  ids, written in the layouts of the three files and decoded again, come back unchanged
  as dictionaries: each decoder succeeds, every record is found under its own id, and the
  dictionary has no other keys. Sentinel ids \<open>-1\<close>, empty tracks and empty names are
  among the records covered.
\<close>

theorem roundtrip_decode_encode:
  assumes "list_all encodableCamera cs" and "distinct (map camera_id cs)"
    and "list_all encodableImage is" and "distinct (map image_id is)"
    and "list_all encodablePoint3D ps" and "distinct (map point_id ps)"
  shows "\<exists>cameras images points3D.
           readCamerasBinary (encodeCameras cs) = Inr cameras \<and>
           (\<forall>c \<in> set cs. map_of cameras (camera_id c) = Some c) \<and>
           fst ` set cameras = camera_id ` set cs \<and>
           readImagesBinary (encodeImages is) = Inr images \<and>
           (\<forall>i \<in> set is. map_of images (image_id i) = Some i) \<and>
           fst ` set images = image_id ` set is \<and>
           readPoints3DBinary (encodePoints3D ps) = Inr points3D \<and>
           (\<forall>p \<in> set ps. map_of points3D (point_id p) = Some p) \<and>
           fst ` set points3D = point_id ` set ps"
proof -
  from assms(1) have "list_all isInt32 (map camera_id cs)"
    by (simp add: list_all_iff encodableCamera_def)
  with assms(2) have "length (map camera_id cs) \<le> 2 ^ 32" by (rule distinct_int32_length)
  then have lc: "length cs < 2 ^ 64" by simp
  from assms(3) have "list_all isInt32 (map image_id is)"
    by (simp add: list_all_iff encodableImage_def)
  with assms(4) have "length (map image_id is) \<le> 2 ^ 32" by (rule distinct_int32_length)
  then have li: "length is < 2 ^ 64" by simp
  from assms(5) have "list_all isUint64Number (map point_id ps)"
    by (simp add: list_all_iff encodablePoint3D_def)
  with assms(6) have "length (map point_id ps) < 2 ^ 64" by (rule distinct_uint64_length)
  then have lp: "length ps < 2 ^ 64" by simp
  have c: "readCamerasBinary (encodeCameras cs) = Inr (keyed camera_id cs)"
    using readCamerasBinary_file [OF assms(1) lc, of "[]"] assms(2)
    by (simp add: fold_update_distinct)
  have i: "readImagesBinary (encodeImages is) = Inr (keyed image_id is)"
    using readImagesBinary_file [OF assms(3) li, of "[]"] assms(4)
    by (simp add: fold_update_distinct)
  have p: "readPoints3DBinary (encodePoints3D ps) = Inr (keyed point_id ps)"
    using readPoints3DBinary_file [OF assms(5) lp, of "[]"] assms(6)
    by (simp add: fold_update_distinct)
  show ?thesis
    using c i p assms(2,4,6) by (simp add: keyed_lookup keyed_keys)
qed

theorem roundtrip_decode_encode_witness:
  "list_all encodableCamera [exampleCamera] \<and> distinct (map camera_id [exampleCamera]) \<and>
   list_all encodableImage [exampleImage] \<and> distinct (map image_id [exampleImage]) \<and>
   list_all encodablePoint3D [examplePoint] \<and> distinct (map point_id [examplePoint]) \<and>
   (\<exists>cameras images points3D.
      readCamerasBinary (encodeCameras [exampleCamera]) = Inr cameras \<and>
      map_of cameras 1 = Some exampleCamera \<and> fst ` set cameras = {1} \<and>
      readImagesBinary (encodeImages [exampleImage]) = Inr images \<and>
      map_of images 7 = Some exampleImage \<and> fst ` set images = {7} \<and>
      readPoints3DBinary (encodePoints3D [examplePoint]) = Inr points3D \<and>
      map_of points3D 3 = Some examplePoint \<and> fst ` set points3D = {3})"
proof -
  have k: "camera_id exampleCamera = 1" "image_id exampleImage = 7" "point_id examplePoint = 3"
    by (simp_all add: exampleCamera_def exampleImage_def examplePoint_def)
  show ?thesis
    using roundtrip_decode_encode [of "[exampleCamera]" "[exampleImage]" "[examplePoint]"]
    by (simp add: example_encodable k)
qed

text \<open>
  Claim C2 (truncation). A well-formed encoding cut at any length below its own makes
  every decoder throw the \<open>RangeError\<close> of the \<^verbatim>\<open>DataView\<close> (for images and points
  wrapped by the \<^verbatim>\<open>catch\<close> clause); no dictionary is returned. Every getter throws
  exactly when the bytes it needs are not all inside the buffer, so no read past the end
  yields a value.
\<close>

theorem truncated_buffer_raises:
  assumes "list_all encodableCamera cs" and "length cs < 2 ^ 64"
    and "n1 < length (encodeCameras cs)"
    and "list_all encodableImage is" and "length is < 2 ^ 64"
    and "n2 < length (encodeImages is)"
    and "list_all encodablePoint3D ps" and "length ps < 2 ^ 64"
    and "n3 < length (encodePoints3D ps)"
  shows "readCamerasBinary (take n1 (encodeCameras cs)) = Inl RangeError \<and>
         readImagesBinary (take n2 (encodeImages is)) = Inl (ErrorReadingImages RangeError) \<and>
         readPoints3DBinary (take n3 (encodePoints3D ps)) = Inl (ErrorReadingPoints3D RangeError) \<and>
         (getUint8 buffer offset = Inl RangeError \<longleftrightarrow> length buffer < offset + 1) \<and>
         (getInt32 buffer offset = Inl RangeError \<longleftrightarrow> length buffer < offset + 4) \<and>
         (getBigInt64 buffer offset = Inl RangeError \<longleftrightarrow> length buffer < offset + 8) \<and>
         (getBigUint64 buffer offset = Inl RangeError \<longleftrightarrow> length buffer < offset + 8) \<and>
         (getFloat64 buffer offset = Inl RangeError \<longleftrightarrow> length buffer < offset + 8)"
  using readCamerasBinary_truncated [OF assms(1-3)] readImagesBinary_truncated [OF assms(4-6)]
    readPoints3DBinary_truncated [OF assms(7-9)]
  by (simp add: getters_out_of_range)

theorem truncated_buffer_raises_witness:
  "list_all encodableCamera [exampleCamera] \<and> length [exampleCamera] < 2 ^ 64 \<and>
   50 < length (encodeCameras [exampleCamera]) \<and>
   list_all encodableImage [exampleImage] \<and> length [exampleImage] < 2 ^ 64 \<and>
   72 < length (encodeImages [exampleImage]) \<and>
   list_all encodablePoint3D [examplePoint] \<and> length [examplePoint] < 2 ^ 64 \<and>
   58 < length (encodePoints3D [examplePoint]) \<and>
   readCamerasBinary (take 50 (encodeCameras [exampleCamera])) = Inl RangeError \<and>
   readImagesBinary (take 72 (encodeImages [exampleImage])) = Inl (ErrorReadingImages RangeError) \<and>
   readPoints3DBinary (take 58 (encodePoints3D [examplePoint]))
     = Inl (ErrorReadingPoints3D RangeError)"
proof -
  have l: "length (encodeCameras [exampleCamera]) = 64"
    "length (encodeImages [exampleImage]) = 105"
    "length (encodePoints3D [examplePoint]) = 59"
    by (simp_all add: encodeCameras_def encodeImages_def encodePoints3D_def
        length_encodeCamera length_encodeImage length_encodePoint3D
        exampleCamera_def exampleImage_def examplePoint_def)
  show ?thesis
    using truncated_buffer_raises [of "[exampleCamera]" 50 "[exampleImage]" 72
        "[examplePoint]" 58]
    by (simp add: example_encodable l)
qed




text \<open>
  Claim C4 (record count). When the loop over the records finishes, the decoder compares
  the number of entries of the dictionary with the count of the header: it returns the
  dictionary when they agree and throws \<open>Number of cameras does not match\<close> when they
  do not. That exception is not the \<open>RangeError\<close> of a short buffer.
\<close>

theorem camera_count_check:
  assumes "getBigUint64 buffer 0 = Inr numCameras"
    and "camerasLoop buffer numCameras 8 [] = Inr (cameras, offset)"
  shows "readCamerasBinary buffer =
           (if length cameras = numCameras then Inr cameras
            else Inl NumberOfCamerasDoesNotMatch) \<and>
         NumberOfCamerasDoesNotMatch \<noteq> RangeError"
  using readCamerasBinary_check [OF assms] by simp

theorem camera_count_check_witness:
  "getBigUint64 (encodeCameras [exampleCamera]) 0 = Inr 1 \<and>
   camerasLoop (encodeCameras [exampleCamera]) 1 8 [] = Inr ([(1, exampleCamera)], 64) \<and>
   readCamerasBinary (encodeCameras [exampleCamera]) = Inr [(1, exampleCamera)]"
proof -
  have n: "getBigUint64 (encodeCameras [exampleCamera]) 0 = Inr 1"
    using file_count [of 1 "concat (map encodeCamera [exampleCamera])" "[]"]
    by (simp add: encodeCameras_def)
  have e: "list_all encodableCamera [exampleCamera]"
    by (simp add: example_encodable)
  have k: "camera_id exampleCamera = 1" "length (encodeCameras [exampleCamera]) = 64"
    by (simp_all add: encodeCameras_def length_encodeCamera exampleCamera_def)
  have l: "camerasLoop (encodeCameras [exampleCamera]) 1 8 [] = Inr ([(1, exampleCamera)], 64)"
    using camerasLoop_file [OF e, of "[]"] by (simp add: k)
  from camera_count_check [OF n l] n l show ?thesis by simp
qed

lemma le_bytes_unfold:
  "le_bytes 4 v = [word_of_nat v, word_of_nat (v div 256), word_of_nat (v div 256 div 256),
     word_of_nat (v div 256 div 256 div 256)]"
  "le_bytes 8 v = [word_of_nat v, word_of_nat (v div 256), word_of_nat (v div 256 div 256),
     word_of_nat (v div 256 div 256 div 256), word_of_nat (v div 256 div 256 div 256 div 256),
     word_of_nat (v div 256 div 256 div 256 div 256 div 256),
     word_of_nat (v div 256 div 256 div 256 div 256 div 256 div 256),
     word_of_nat (v div 256 div 256 div 256 div 256 div 256 div 256 div 256)]"
proof -
  have n: "(4::nat) = Suc (Suc (Suc (Suc 0)))"
    "(8::nat) = Suc (Suc (Suc (Suc (Suc (Suc (Suc (Suc 0)))))))"
    by simp_all
  show "le_bytes 4 v = [word_of_nat v, word_of_nat (v div 256), word_of_nat (v div 256 div 256),
     word_of_nat (v div 256 div 256 div 256)]"
    unfolding n(1) by (simp only: le_bytes.simps)
  show "le_bytes 8 v = [word_of_nat v, word_of_nat (v div 256), word_of_nat (v div 256 div 256),
     word_of_nat (v div 256 div 256 div 256), word_of_nat (v div 256 div 256 div 256 div 256),
     word_of_nat (v div 256 div 256 div 256 div 256 div 256),
     word_of_nat (v div 256 div 256 div 256 div 256 div 256 div 256),
     word_of_nat (v div 256 div 256 div 256 div 256 div 256 div 256 div 256)]"
    unfolding n(2) by (simp only: le_bytes.simps)
qed

lemma duplicateIdCameras_encoding:
  "encodeCameras [firstCamera, secondCamera] = duplicateIdCameras"
  by (simp add: encodeCameras_def encodeCamera_def firstCamera_def secondCamera_def
      duplicateIdCameras_def encodeUint64_def encodeInt32_def encodeInt64_def encodeFloat64_def
      le_bytes_unfold CAMERA_MODEL_NAMES_own_table)

lemma duplicate_encodable:
  "encodableCamera firstCamera" "encodableCamera secondCamera" "encodableImage secondImage"
  by (simp_all add: encodableCamera_def firstCamera_def secondCamera_def encodableImage_def
      secondImage_def isInt32_def isInt64Number_def Number_small CAMERA_MODEL_NAMES_own_table)

text \<open>
  Claim C5 (duplicate camera ids), as stated, fails: the cameras file
  \<open>duplicateIdCameras\<close> declares two cameras and holds two complete records with the
  id 1, and the decoder throws instead of returning a dictionary.
\<close>

theorem duplicate_camera_ids_counterexample:
  "duplicateIdCameras = encodeCameras [firstCamera, secondCamera] \<and>
   camera_id firstCamera = camera_id secondCamera \<and>
   readCamerasBinary duplicateIdCameras = Inl NumberOfCamerasDoesNotMatch"
proof -
  have k: "camera_id firstCamera = 1" "camera_id secondCamera = 1"
    by (simp_all add: firstCamera_def secondCamera_def)
  have "list_all encodableCamera [firstCamera, secondCamera]"
    by (simp add: duplicate_encodable)
  from readCamerasBinary_file [OF this, of "[]"]
  have "readCamerasBinary (encodeCameras [firstCamera, secondCamera]) =
      Inl NumberOfCamerasDoesNotMatch"
    by (simp add: k)
  then show ?thesis
    by (simp add: duplicateIdCameras_encoding k)
qed

text \<open>
  Claim C5, amended. For a cameras file that holds complete, well-formed records among
  which a camera id occurs more than once, the loop assembles a dictionary in which the
  last record with a given id has replaced the earlier ones; that dictionary has fewer
  entries than the header declares, so the count check throws
  \<open>Number of cameras does not match\<close> and no dictionary is returned.
\<close>

theorem duplicate_camera_ids_raise:
  assumes "list_all encodableCamera cs" and "length cs < 2 ^ 64"
    and "\<not> distinct (map camera_id cs)"
  shows "readCamerasBinary (encodeCameras cs) = Inl NumberOfCamerasDoesNotMatch \<and>
         (\<exists>cameras offset.
            camerasLoop (encodeCameras cs) (length cs) 8 [] = Inr (cameras, offset) \<and>
            (\<forall>k. map_of cameras k = lastRecord camera_id k cs) \<and>
            length cameras < length cs)"
proof -
  have "readCamerasBinary (encodeCameras cs) = Inl NumberOfCamerasDoesNotMatch"
    using readCamerasBinary_file [OF assms(1,2), of "[]"] assms(3) by simp
  moreover have "\<forall>k. map_of (fold (\<lambda>c. AList.update (camera_id c) c) cs []) k
      = lastRecord camera_id k cs"
    by (simp add: map_of_fold_update_last split: option.splits)
  moreover have "length (fold (\<lambda>c. AList.update (camera_id c) c) cs []) < length cs"
  proof -
    have "card (set (map camera_id cs)) \<le> length (map camera_id cs)"
      by (rule card_length)
    moreover have "card (set (map camera_id cs)) \<noteq> length (map camera_id cs)"
      using assms(3) card_distinct by blast
    ultimately show ?thesis by (simp add: length_fold_update)
  qed
  ultimately show ?thesis
    using camerasLoop_file [OF assms(1), of "[]"] by simp
qed

theorem duplicate_camera_ids_raise_witness:
  "list_all encodableCamera [firstCamera, secondCamera] \<and>
   length [firstCamera, secondCamera] < 2 ^ 64 \<and>
   \<not> distinct (map camera_id [firstCamera, secondCamera]) \<and>
   readCamerasBinary (encodeCameras [firstCamera, secondCamera])
     = Inl NumberOfCamerasDoesNotMatch"
proof -
  have k: "camera_id firstCamera = 1" "camera_id secondCamera = 1"
    by (simp_all add: firstCamera_def secondCamera_def)
  show ?thesis
    using duplicate_camera_ids_raise [of "[firstCamera, secondCamera]"]
    by (simp add: duplicate_encodable k)
qed

lemma imagesLoop_add:
  "imagesLoop buffer (a + b) offset acc =
     (case imagesLoop buffer a offset acc of
        Inl e \<Rightarrow> Inl e
      | Inr (acc', off') \<Rightarrow> imagesLoop buffer b off' acc')"
  by (induction a arbitrary: offset acc) (auto split: sum.splits)

lemma readImage_unterminated:
  assumes nz: "0 \<notin> set (drop (offset + 64) buffer)"
  shows "readImage buffer offset = Inl RangeError"
proof (cases "offset + 64 \<le> length buffer")
  case True
  then obtain imageId q0 q1 q2 q3 t0 t1 t2 cameraId where
    "getInt32 buffer offset = Inr imageId" "getFloat64 buffer (offset + 4) = Inr q0"
    "getFloat64 buffer (offset + 12) = Inr q1" "getFloat64 buffer (offset + 20) = Inr q2"
    "getFloat64 buffer (offset + 28) = Inr q3" "getFloat64 buffer (offset + 36) = Inr t0"
    "getFloat64 buffer (offset + 44) = Inr t1" "getFloat64 buffer (offset + 52) = Inr t2"
    "getInt32 buffer (offset + 60) = Inr cameraId"
    using getters_in_range(1) [of offset buffer] getters_in_range(1) [of "offset + 60" buffer]
      getters_in_range(4) [of "offset + 4" buffer] getters_in_range(4) [of "offset + 12" buffer]
      getters_in_range(4) [of "offset + 20" buffer] getters_in_range(4) [of "offset + 28" buffer]
      getters_in_range(4) [of "offset + 36" buffer] getters_in_range(4) [of "offset + 44" buffer]
      getters_in_range(4) [of "offset + 52" buffer]
    by auto
  moreover have "readName buffer (offset + 64) [] = Inl RangeError"
    using readName_scan [of buffer "offset + 64" "[]"] nz by simp
  ultimately show ?thesis
    by (simp add: readImage_def)
next
  case False
  then show ?thesis
    by (simp add: readImage_def getInt32_def getFloat64_def getBytes_def)
qed

text \<open>
  Claim C6 (name scan). The scan is a total function: from any offset of any buffer it
  either finds the first zero byte, returns the characters before it and the offset
  behind it, or, when no zero byte is left, ends with the \<open>RangeError\<close> of the read
  behind the last byte. Whenever the decoder comes to a record, the first or a later
  one, behind whose 64 fixed bytes the buffer has no zero byte, it throws (the error
  wrapped by its \<^verbatim>\<open>catch\<close> clause) and returns no dictionary, whatever it has decoded
  before.
\<close>

theorem name_scan_terminates:
  "readName buffer offset [] =
     (if 0 \<in> set (drop offset buffer)
      then Inr (map fromCharCode (takeWhile (\<lambda>b. b \<noteq> 0) (drop offset buffer)),
                offset + length (takeWhile (\<lambda>b. b \<noteq> 0) (drop offset buffer)) + 1)
      else Inl RangeError) \<and>
   (getBigUint64 buffer 0 = Inr numRegImages \<and> k < numRegImages \<and>
    imagesLoop buffer k 8 [] = Inr (images, at) \<and> 0 \<notin> set (drop (at + 64) buffer)
      \<longrightarrow> readImagesBinary buffer = Inl (ErrorReadingImages RangeError))"
proof -
  have scan: "readName buffer offset [] =
     (if 0 \<in> set (drop offset buffer)
      then Inr (map fromCharCode (takeWhile (\<lambda>b. b \<noteq> 0) (drop offset buffer)),
                offset + length (takeWhile (\<lambda>b. b \<noteq> 0) (drop offset buffer)) + 1)
      else Inl RangeError)"
    using readName_scan [of buffer offset "[]"] by simp
  have "readImagesBinary buffer = Inl (ErrorReadingImages RangeError)"
    if n: "getBigUint64 buffer 0 = Inr numRegImages" and k: "k < numRegImages"
      and l: "imagesLoop buffer k 8 [] = Inr (images, at)"
      and nz: "0 \<notin> set (drop (at + 64) buffer)"
  proof -
    define j where "j = numRegImages - Suc k"
    have e: "numRegImages = k + Suc j"
      using k by (simp add: j_def)
    have "imagesLoop buffer (k + Suc j) 8 [] = Inl RangeError"
      by (subst imagesLoop_add) (simp add: l readImage_unterminated [OF nz])
    then show ?thesis
      by (simp add: readImagesBinary_def n e)
  qed
  with scan show ?thesis by blast
qed

theorem name_scan_terminates_witness:
  "getBigUint64 unterminatedNameImages 0 = Inr 1 \<and> (0::nat) < 1 \<and>
   imagesLoop unterminatedNameImages 0 8 [] = Inr ([], 8) \<and>
   0 \<notin> set (drop (8 + 64) unterminatedNameImages) \<and>
   readImagesBinary unterminatedNameImages = Inl (ErrorReadingImages RangeError) \<and>
   getBigUint64 unterminatedSecondName 0 = Inr 2 \<and> (1::nat) < 2 \<and>
   imagesLoop unterminatedSecondName 1 8 [] = Inr ([(7, exampleImage)], 105) \<and>
   0 \<notin> set (drop (105 + 64) unterminatedSecondName) \<and>
   readImagesBinary unterminatedSecondName = Inl (ErrorReadingImages RangeError) \<and>
   readName [65, 66, 0, 67] 0 [] = Inr (''AB'', 3) \<and>
   readName [65, 66, 67] 0 [] = Inl RangeError"
proof -
  have g: "getBigUint64 unterminatedNameImages 0 = Inr 1"
    "imagesLoop unterminatedNameImages 0 8 [] = Inr ([], 8)"
    "0 \<notin> set (drop 72 unterminatedNameImages)"
    by (simp_all add: unterminatedNameImages_def getBigUint64_def getBytes_def)
  have len: "length (encodeImage exampleImage) = 97" "image_id exampleImage = 7"
    by (simp_all add: length_encodeImage exampleImage_def)
  have h1: "getBigUint64 unterminatedSecondName 0 = Inr 2"
    unfolding unterminatedSecondName_def by (rule file_count) simp
  have "bytesAt unterminatedSecondName 8 (encodeImage exampleImage)"
    unfolding unterminatedSecondName_def by (rule file_layout(2))
  from readImage_encode [OF this example_encodable(2)]
  have r: "readImage unterminatedSecondName 8 = Inr (exampleImage, 105)"
    by (simp add: len)
  then have h2: "imagesLoop unterminatedSecondName 1 8 [] = Inr ([(7, exampleImage)], 105)"
    by (simp add: len)
  have h3: "0 \<notin> set (drop 169 unterminatedSecondName)"
    by (simp add: unterminatedSecondName_def len)
  have c: "fromCharCode 65 = CHR ''A''" "fromCharCode 66 = CHR ''B''"
    using char_of_char [of "CHR ''A''", where 'a = nat] char_of_char [of "CHR ''B''", where 'a = nat]
    by (simp_all add: fromCharCode_def)
  show ?thesis
    using name_scan_terminates [of unterminatedNameImages 0 1 0 "[]" 8]
      name_scan_terminates [of unterminatedSecondName 0 2 1 "[(7, exampleImage)]" 105]
      name_scan_terminates [of "[65, 66, 0, 67]" 0 0 0 "[]" 0]
      name_scan_terminates [of "[65, 66, 67]" 0 0 0 "[]" 0]
    by (simp add: g h1 r len h3 c)
qed

text \<open>
  Claim C8 (tracks). Every record of the dictionary that readPoints3DBinary returns was
  decoded at some offset of the buffer, is stored under its own id, and its \<open>imageIds\<close>
  and \<open>point2DIdxs\<close> both have the length that the \<open>track_length\<close> field of that
  record (at byte 43 of the record) declares. A record whose 51 fixed bytes are present
  and whose \<open>track_length\<close> is 0 decodes, to empty \<open>imageIds\<close> and \<open>point2DIdxs\<close>.
\<close>

theorem point_track_lengths:
  "(readPoints3DBinary buffer = Inr points3D \<and> (k, p) \<in> set points3D \<longrightarrow>
      (\<exists>offset offset'.
         readPoint3D buffer offset = Inr (p, offset') \<and> k = point_id p \<and>
         getBigUint64 buffer (offset + 43) = Inr (length (imageIds p)) \<and>
         length (point2DIdxs p) = length (imageIds p))) \<and>
   (at + 51 \<le> length buffer \<and> getBigUint64 buffer (at + 43) = Inr 0 \<longrightarrow>
      (\<exists>q. readPoint3D buffer at = Inr (q, at + 51) \<and> imageIds q = [] \<and> point2DIdxs q = []))"
proof -
  have a: "\<exists>offset offset'.
         readPoint3D buffer offset = Inr (p, offset') \<and> k = point_id p \<and>
         getBigUint64 buffer (offset + 43) = Inr (length (imageIds p)) \<and>
         length (point2DIdxs p) = length (imageIds p)"
    if r: "readPoints3DBinary buffer = Inr points3D" and m: "(k, p) \<in> set points3D"
  proof -
    from r obtain n off where "pointsLoop buffer n 8 [] = Inr (points3D, off)"
      by (auto simp: readPoints3DBinary_def andThen_def split: sum.splits)
    from pointsLoop_records [OF this m] obtain offset offset' where
      d: "readPoint3D buffer offset = Inr (p, offset')" and k: "k = point_id p"
      by auto
    from readPoint3D_track [OF d] d k show ?thesis by blast
  qed
  have b: "\<exists>q. readPoint3D buffer at = Inr (q, at + 51) \<and> imageIds q = [] \<and> point2DIdxs q = []"
    if len: "at + 51 \<le> length buffer" and z: "getBigUint64 buffer (at + 43) = Inr 0"
  proof -
    from len obtain i x y z e where "getBigUint64 buffer at = Inr i"
      "getFloat64 buffer (at + 8) = Inr x" "getFloat64 buffer (at + 16) = Inr y"
      "getFloat64 buffer (at + 24) = Inr z" "getFloat64 buffer (at + 35) = Inr e"
      using getters_in_range(3) [of at buffer] getters_in_range(4) [of "at + 8" buffer]
        getters_in_range(4) [of "at + 16" buffer] getters_in_range(4) [of "at + 24" buffer]
        getters_in_range(4) [of "at + 35" buffer]
      by auto
    moreover from len have "getUint8 buffer (at + 32) = Inr (buffer ! (at + 32))"
      "getUint8 buffer (at + 33) = Inr (buffer ! (at + 33))"
      "getUint8 buffer (at + 34) = Inr (buffer ! (at + 34))"
      by (simp_all add: getUint8_def)
    ultimately show ?thesis
      using z by (simp add: readPoint3D_def)
  qed
  from a b show ?thesis by blast
qed

theorem point_track_lengths_witness:
  "readPoints3DBinary (encodePoints3D [examplePoint]) = Inr [(3, examplePoint)] \<and>
   (3, examplePoint) \<in> set [(3, examplePoint)] \<and>
   8 + 51 \<le> length (encodePoints3D [examplePoint]) \<and>
   getBigUint64 (encodePoints3D [examplePoint]) (8 + 43) = Inr 0 \<and>
   (\<exists>offset offset'.
      readPoint3D (encodePoints3D [examplePoint]) offset = Inr (examplePoint, offset') \<and>
      getBigUint64 (encodePoints3D [examplePoint]) (offset + 43) = Inr 0 \<and>
      length (point2DIdxs examplePoint) = 0) \<and>
   (\<exists>q. readPoint3D (encodePoints3D [examplePoint]) 8 = Inr (q, 8 + 51) \<and>
      imageIds q = [] \<and> point2DIdxs q = [])"
proof -
  have k: "point_id examplePoint = 3" "imageIds examplePoint = []"
    "length (encodePoints3D [examplePoint]) = 59"
    by (simp_all add: examplePoint_def encodePoints3D_def length_encodePoint3D)
  have e: "list_all encodablePoint3D [examplePoint]"
    by (simp add: example_encodable)
  have r: "readPoints3DBinary (encodePoints3D [examplePoint]) = Inr [(3, examplePoint)]"
    using readPoints3DBinary_file [OF e, of "[]"] by (simp add: k)
  have "bytesAt (encodePoints3D [examplePoint]) 8 (encodePoint3D examplePoint)"
    using file_layout(2) [of 1 "encodePoint3D examplePoint" "[]"]
    by (simp add: encodePoints3D_def)
  from readPoint3D_track(1) [OF readPoint3D_encode [OF this example_encodable(3)]]
  have z: "getBigUint64 (encodePoints3D [examplePoint]) 51 = Inr 0"
    by (simp add: k)
  show ?thesis
    using point_track_lengths [of "encodePoints3D [examplePoint]" "[(3, examplePoint)]" 3
        examplePoint 8]
    by (simp add: r z k)
qed

text \<open>
  Claim C9 (camera mesh). createCameraMesh throws \<open>Camera model not supported\<close>, before
  any geometry is built, for every model name outside the seven it handles; for each of
  the seven it takes \<open>fx, fy, cx, cy\<close> from the parameters (one focal length for the
  first three models, two for the other four) and builds the mesh, and for a camera
  that has the parameters of its model all four are defined.
\<close>

theorem createCameraMesh_models:
  "(model camera \<notin> {''SIMPLE_PINHOLE'', ''SIMPLE_RADIAL'', ''RADIAL'', ''PINHOLE'', ''OPENCV'',
                      ''OPENCV_FISHEYE'', ''FULL_OPENCV''}
      \<longrightarrow> createCameraMesh pyramid camera = Inl CameraModelNotSupported) \<and>
   (model camera \<in> {''SIMPLE_PINHOLE'', ''SIMPLE_RADIAL'', ''RADIAL''}
      \<longrightarrow> createCameraMesh pyramid camera =
            Inr (pyramid (width camera) (height camera)
                   (element (params camera) 0) (element (params camera) 0)
                   (element (params camera) 1) (element (params camera) 2)) \<and>
          (encodableCamera camera \<longrightarrow>
             element (params camera) 0 = Some (params camera ! 0) \<and>
             element (params camera) 1 = Some (params camera ! 1) \<and>
             element (params camera) 2 = Some (params camera ! 2))) \<and>
   (model camera \<in> {''PINHOLE'', ''OPENCV'', ''OPENCV_FISHEYE'', ''FULL_OPENCV''}
      \<longrightarrow> createCameraMesh pyramid camera =
            Inr (pyramid (width camera) (height camera)
                   (element (params camera) 0) (element (params camera) 1)
                   (element (params camera) 2) (element (params camera) 3)) \<and>
          (encodableCamera camera \<longrightarrow>
             element (params camera) 0 = Some (params camera ! 0) \<and>
             element (params camera) 1 = Some (params camera ! 1) \<and>
             element (params camera) 2 = Some (params camera ! 2) \<and>
             element (params camera) 3 = Some (params camera ! 3)))"
  by (auto simp: createCameraMesh_def Let_def element_def encodableCamera_def
      CAMERA_MODEL_NAMES_own_table)

theorem createCameraMesh_models_witness:
  "model (exampleCamera\<lparr>model := ''FOV''\<rparr>)
     \<notin> {''SIMPLE_PINHOLE'', ''SIMPLE_RADIAL'', ''RADIAL'', ''PINHOLE'', ''OPENCV'',
         ''OPENCV_FISHEYE'', ''FULL_OPENCV''} \<and>
   createCameraMesh (\<lambda>w h fx fy cx cy. (w, h, fx, fy, cx, cy)) (exampleCamera\<lparr>model := ''FOV''\<rparr>)
     = Inl CameraModelNotSupported \<and>
   model firstCamera \<in> {''SIMPLE_PINHOLE'', ''SIMPLE_RADIAL'', ''RADIAL''} \<and>
   encodableCamera firstCamera \<and>
   createCameraMesh (\<lambda>w h fx fy cx cy. (w, h, fx, fy, cx, cy)) firstCamera =
     Inr (640, 480, Some 0x4080000000000000, Some 0x4080000000000000,
          Some 0x4074000000000000, Some 0x406E000000000000) \<and>
   model exampleCamera \<in> {''PINHOLE'', ''OPENCV'', ''OPENCV_FISHEYE'', ''FULL_OPENCV''} \<and>
   encodableCamera exampleCamera \<and>
   createCameraMesh (\<lambda>w h fx fy cx cy. (w, h, fx, fy, cx, cy)) exampleCamera =
     Inr (1920, 1080, Some 0x408F400000000000, Some 0x408F400000000000,
          Some 0x408E000000000000, Some 0x4080E00000000000)"
proof -
  let ?pyramid = "\<lambda>(w::int) (h::int) (fx::float64 option) (fy::float64 option)
      (cx::float64 option) (cy::float64 option). (w, h, fx, fy, cx, cy)"
  have m: "model (exampleCamera\<lparr>model := ''FOV''\<rparr>) = ''FOV''"
    "model firstCamera = ''SIMPLE_PINHOLE''" "model exampleCamera = ''PINHOLE''"
    by (simp_all add: firstCamera_def exampleCamera_def)
  have v: "width firstCamera = 640" "height firstCamera = 480"
    "params firstCamera = [0x4080000000000000, 0x4074000000000000, 0x406E000000000000]"
    "width exampleCamera = 1920" "height exampleCamera = 1080"
    "params exampleCamera =
       [0x408F400000000000, 0x408F400000000000, 0x408E000000000000, 0x4080E00000000000]"
    by (simp_all add: firstCamera_def exampleCamera_def)
  show ?thesis
    using createCameraMesh_models [of "exampleCamera\<lparr>model := ''FOV''\<rparr>" ?pyramid]
      createCameraMesh_models [of firstCamera ?pyramid]
      createCameraMesh_models [of exampleCamera ?pyramid]
    by (simp add: m v example_encodable duplicate_encodable)
qed

text \<open>
  Claim C10 (duplicate image ids). readImagesBinary has no count check. For every images
  file that holds complete, well-formed records, with or without repeated ids, it returns
  a dictionary; under each id the dictionary holds the last record of the file with that
  id, and it has one entry per distinct id, so fewer entries than the header declares
  when an id repeats.
\<close>

theorem duplicate_image_ids_last_wins:
  assumes "list_all encodableImage rs" and "length rs < 2 ^ 64"
  shows "\<exists>images. readImagesBinary (encodeImages rs) = Inr images \<and>
           (\<forall>k. map_of images k = lastRecord image_id k rs) \<and>
           length images = card (image_id ` set rs)"
proof -
  have "\<forall>k. map_of (fold (\<lambda>i. AList.update (image_id i) i) rs []) k
      = lastRecord image_id k rs"
    by (simp add: map_of_fold_update_last split: option.splits)
  then show ?thesis
    using readImagesBinary_file [OF assms, of "[]"] by (simp add: length_fold_update)
qed

theorem duplicate_image_ids_last_wins_witness:
  "list_all encodableImage [exampleImage, secondImage] \<and>
   length [exampleImage, secondImage] < 2 ^ 64 \<and>
   image_id exampleImage = image_id secondImage \<and>
   (\<exists>images. readImagesBinary (encodeImages [exampleImage, secondImage]) = Inr images \<and>
      map_of images 7 = Some secondImage \<and> length images = 1)"
proof -
  have k: "image_id exampleImage = 7" "image_id secondImage = 7"
    by (simp_all add: exampleImage_def secondImage_def)
  have l: "lastRecord image_id 7 [exampleImage, secondImage] = Some secondImage"
    by (simp add: lastRecord_def k)
  from duplicate_image_ids_last_wins [of "[exampleImage, secondImage]"]
  obtain images where "readImagesBinary (encodeImages [exampleImage, secondImage]) = Inr images"
    and "\<forall>k. map_of images k = lastRecord image_id k [exampleImage, secondImage]"
    and "length images = card (image_id ` set [exampleImage, secondImage])"
    by (auto simp: example_encodable duplicate_encodable)
  then have "readImagesBinary (encodeImages [exampleImage, secondImage]) = Inr images \<and>
      map_of images 7 = Some secondImage \<and> length images = 1"
    by (simp add: l k)
  then show ?thesis
    by (auto simp: example_encodable duplicate_encodable k)
qed

end
